theory Spec2Isabelle
  imports
    Main
    "HOL-Library.Finite_Map"
    "HOL-Library.Multiset"
    "HOL-Library.Char_ord"
    "HOL-Library.List_Lexorder"
begin

section \<open>The result model of daggerpool's worker pool (pkg/workerpool/job\_result.go)\<close>

text \<open>
  Go strings are byte sequences compared bytewise, which is the lexicographic order of
  \<^typ>\<open>string\<close> with the order of \<^typ>\<open>char\<close> on character codes; \<open>sort.Strings\<close> is
  \<^const>\<open>sort\<close> in that order (equal strings are indistinguishable, so the instability of
  Go's sort is invisible).

  A Go map is a finite map. The order in which \<open>range\<close> visits its keys is chosen by the
  runtime, anew for every loop; each function that ranges over a map therefore takes, for
  each such loop, the list of keys in the order the loop visits them. \<open>range_order m ks\<close>
  says that \<open>ks\<close> is such a list for the map \<open>m\<close>.
\<close>

subsection \<open>Data\<close>

datatype JobStatus =
    JobStatusUnknown
  | JobStatusSuccess
  | JobStatusInProgress
  | JobStatusSkipped
  | JobStatusFailed

definition timeoutError :: string where
  "timeoutError = ''timeout_error''"

text \<open>The field \<open>Error\<close> holds Go's \<open>error\<close>: \<open>None\<close> is nil, \<open>Some msg\<close> an error with that message.\<close>

record JobResult =
  Name :: string
  Status :: JobStatus
  Error :: "string option"

text \<open>
  \<open>map[string]*JobResult\<close>: a key is bound to a pointer, and the pointer may be nil
  (\<open>Some None\<close>). \<open>map[string][]string\<close>: a nil slice and an empty slice are both \<open>[]\<close>.

  A map value is itself nil or refers to a table. Reading a nil map is reading an empty
  table, and every method below except \<open>TimeoutError\<close> only reads its receiver: those
  methods take the table, \<^term>\<open>fmempty\<close> for the nil map. \<open>TimeoutError\<close> writes, and
  writing to a nil map panics: its receiver is a \<open>DAGResult option\<close>, \<open>None\<close> for the nil
  map and \<open>Some m\<close> for a map with the table \<open>m\<close>.
\<close>

type_synonym DAGResult = "(string, JobResult option) fmap"

type_synonym DAG = "(string, string list) fmap"

record FrontierItem =
  Job :: string
  Status :: JobStatus
  BlockedBy :: "string list"
  Subtree :: "string list"
  dagResult :: DAGResult

datatype error = NilPointerDereference | AssignmentToNilMap

definition range_order :: "('k, 'v) fmap \<Rightarrow> 'k list \<Rightarrow> bool" where
  "range_order m ks \<longleftrightarrow> distinct ks \<and> set ks = fmdom' m"

text \<open>\<open>dag[n]\<close>: the zero value (a nil slice) when the key is absent.\<close>

definition dag_at :: "DAG \<Rightarrow> string \<Rightarrow> string list" where
  "dag_at dag n = (case fmlookup dag n of None \<Rightarrow> [] | Some deps \<Rightarrow> deps)"

text \<open>\<open>r[key]\<close>: the zero value (a nil pointer) when the key is absent.\<close>

definition result_at :: "DAGResult \<Rightarrow> string \<Rightarrow> JobResult option" where
  "result_at r key = (case fmlookup r key of None \<Rightarrow> None | Some p \<Rightarrow> p)"

text \<open>Reading a field through a pointer panics on nil.\<close>

definition deref :: "JobResult option \<Rightarrow> error + JobResult" where
  "deref p = (case p of None \<Rightarrow> Inl NilPointerDereference | Some jr \<Rightarrow> Inr jr)"

subsection \<open>Construction and the methods of one job's result\<close>

definition newDAGResult :: "string list \<Rightarrow> DAG \<Rightarrow> DAGResult" where
  "newDAGResult ks dag =
     fold (\<lambda>jobName result.
             fmupd jobName
               (Some \<lparr>Name = jobName, JobResult.Status = JobStatusUnknown, Error = None\<rparr>)
               result)
          ks fmempty"

definition JobResult_IsFailed :: "JobResult \<Rightarrow> bool" where
  "JobResult_IsFailed j \<longleftrightarrow> JobResult.Status j = JobStatusFailed"

definition IsSkipped :: "JobResult \<Rightarrow> bool" where
  "IsSkipped j \<longleftrightarrow> JobResult.Status j = JobStatusSkipped"

definition IsInProgress :: "JobResult \<Rightarrow> bool" where
  "IsInProgress j \<longleftrightarrow> JobResult.Status j = JobStatusInProgress"

definition IsSuccessfull :: "JobResult \<Rightarrow> bool" where
  "IsSuccessfull j \<longleftrightarrow> JobResult.Status j = JobStatusSuccess"

text \<open>
  \<open>TimeoutError\<close> stores a fresh entry under the reserved key. Its message is
  \<open>fmt.Errorf("timeout after %v", deadline.Seconds())\<close>; the rendering of the floating-point
  number of seconds is the parameter \<open>show_seconds\<close>. The entry's \<open>Name\<close> is left at its zero
  value. On the nil map the assignment panics ("assignment to entry in nil map").
\<close>

definition TimeoutError ::
    "(int \<Rightarrow> string) \<Rightarrow> int \<Rightarrow> DAGResult option \<Rightarrow> error + DAGResult" where
  "TimeoutError show_seconds deadline r =
     (case r of
        None \<Rightarrow> Inl AssignmentToNilMap
      | Some m \<Rightarrow>
          Inr (fmupd timeoutError
                 (Some \<lparr>Name = [], JobResult.Status = JobStatusFailed,
                        Error = Some (''timeout after '' @ show_seconds deadline)\<rparr>)
                 m))"

subsection \<open>Aggregate predicates\<close>

text \<open>\<open>for _, jobResult := range r\<close> visiting the keys \<open>ks\<close>; \<open>jobResult.Status\<close> panics on nil.\<close>

fun IsFailed_loop :: "DAGResult \<Rightarrow> string list \<Rightarrow> error + bool" where
  "IsFailed_loop r [] = Inr False"
| "IsFailed_loop r (k # ks) =
     (case deref (result_at r k) of
        Inl e \<Rightarrow> Inl e
      | Inr jobResult \<Rightarrow>
          if JobResult.Status jobResult = JobStatusFailed then Inr True
          else IsFailed_loop r ks)"

definition IsFailed :: "string list \<Rightarrow> DAGResult \<Rightarrow> error + bool" where
  "IsFailed ks r = IsFailed_loop r ks"

definition IsTimeouted :: "DAGResult \<Rightarrow> bool" where
  "IsTimeouted r = (case fmlookup r timeoutError of None \<Rightarrow> False | Some _ \<Rightarrow> True)"

definition orderedJobs :: "string list \<Rightarrow> DAGResult \<Rightarrow> string list" where
  "orderedJobs ks r = sort (fold (\<lambda>job keys. keys @ [job]) ks [])"

fun IsReady_loop :: "DAGResult \<Rightarrow> string list \<Rightarrow> error + bool" where
  "IsReady_loop r [] = Inr True"
| "IsReady_loop r (key # keys) =
     (case deref (result_at r key) of
        Inl e \<Rightarrow> Inl e
      | Inr j \<Rightarrow>
          if IsSkipped j \<or> IsInProgress j \<or> JobResult_IsFailed j then Inr False
          else IsReady_loop r keys)"

definition IsReady :: "string list \<Rightarrow> DAGResult \<Rightarrow> error + bool" where
  "IsReady ks r = IsReady_loop r (orderedJobs ks r)"

fun FirstInProgress_loop :: "DAGResult \<Rightarrow> string list \<Rightarrow> error + JobResult option" where
  "FirstInProgress_loop r [] = Inr None"
| "FirstInProgress_loop r (key # keys) =
     (case deref (result_at r key) of
        Inl e \<Rightarrow> Inl e
      | Inr j \<Rightarrow>
          if IsInProgress j then Inr (result_at r key)
          else FirstInProgress_loop r keys)"

definition FirstInProgress :: "string list \<Rightarrow> DAGResult \<Rightarrow> error + JobResult option" where
  "FirstInProgress ks r = FirstInProgress_loop r (orderedJobs ks r)"

fun IsSuccessful_loop :: "DAGResult \<Rightarrow> string list \<Rightarrow> error + bool" where
  "IsSuccessful_loop r [] = Inr True"
| "IsSuccessful_loop r (k # ks) =
     (case deref (result_at r k) of
        Inl e \<Rightarrow> Inl e
      | Inr result \<Rightarrow>
          if JobResult.Status result \<noteq> JobStatusSuccess then Inr False
          else IsSuccessful_loop r ks)"

definition IsSuccessful :: "string list \<Rightarrow> DAGResult \<Rightarrow> error + bool" where
  "IsSuccessful ks r = IsSuccessful_loop r ks"

subsection \<open>Lookups that tolerate a missing or nil entry\<close>

definition get :: "DAGResult \<Rightarrow> string \<Rightarrow> JobResult" where
  "get r job =
     (case fmlookup r job of
        Some (Some jr) \<Rightarrow> jr
      | _ \<Rightarrow> \<lparr>Name = job, JobResult.Status = JobStatusUnknown, Error = None\<rparr>)"

definition isSuccess :: "DAGResult \<Rightarrow> string \<Rightarrow> bool" where
  "isSuccess r job \<longleftrightarrow> JobResult.Status (get r job) = JobStatusSuccess"

subsection \<open>Graph queries\<close>

definition Blockers :: "DAGResult \<Rightarrow> DAG \<Rightarrow> string \<Rightarrow> string list" where
  "Blockers r dag job =
     (let deps = dag_at dag job in
      if length deps = 0 then []
      else sort (filter (\<lambda>d. \<not> isSuccess r d) deps))"

text \<open>
  Both traversals below terminate for the same reason: entering a node that is not yet
  marked either marks one more key of the graph, or the node is no key and has no edges.
\<close>

lemma enter_node_decreases:
  assumes "n \<notin> marked"
  shows "card (fmdom' dag - insert n marked) < card (fmdom' dag - marked)
         \<or> (card (fmdom' dag - insert n marked) = card (fmdom' dag - marked)
            \<and> dag_at dag n = [])"
proof (cases "n \<in> fmdom' dag")
  case True
  with assms have "card (fmdom' dag - insert n marked) < card (fmdom' dag - marked)"
    by (intro psubset_card_mono) auto
  then show ?thesis by simp
next
  case False
  then have "dag_at dag n = []" by (auto simp: dag_at_def split: option.splits)
  moreover from False have "fmdom' dag - insert n marked = fmdom' dag - marked" by auto
  ultimately show ?thesis by simp
qed

text \<open>
  The closure \<open>dfs\<close> of \<open>Subtree\<close> with the two variables it captures, \<open>seen\<close> and \<open>out\<close>,
  passed in and returned; \<open>dfs_each\<close> is its loop over \<open>dag[n]\<close>.
\<close>

function dfs :: "DAG \<Rightarrow> string \<Rightarrow> string set \<times> string list \<Rightarrow> string set \<times> string list"
  and dfs_each :: "DAG \<Rightarrow> string list \<Rightarrow> string set \<times> string list \<Rightarrow> string set \<times> string list"
where
  "dfs dag n (seen, out) =
     (if n \<in> seen then (seen, out)
      else dfs_each dag (dag_at dag n) (insert n seen, out @ [n]))"
| "dfs_each dag [] st = st"
| "dfs_each dag (s # ss) st = dfs_each dag ss (dfs dag s st)"
  by pat_completeness auto

termination
proof (relation "inv_image (less_than <*lex*> less_than)
    (\<lambda>x. case x of
        Inl (dag, n, st) \<Rightarrow> (card (fmdom' dag - fst st), 2::nat)
      | Inr (dag, ss, st) \<Rightarrow> (card (fmdom' dag - fst st), 2 * length ss + 1))", goal_cases)
  case 1
  show ?case by (intro wf_inv_image wf_lex_prod wf_less_than)
next
  case 2
  then show ?case by (simp add: enter_node_decreases)
next
  case 3
  then show ?case by simp
next
  case (4 dag s ss st)
  have mono: "dfs_dfs_each_dom (Inl (g, n, a)) \<Longrightarrow> fst a \<subseteq> fst (dfs g n a)"
    and "dfs_dfs_each_dom (Inr (g', ns, a')) \<Longrightarrow> fst a' \<subseteq> fst (dfs_each g' ns a')"
    for g n a g' ns a'
  proof (induction g n a and g' ns a' rule: dfs_dfs_each.pinduct)
    case (1 dag n seen out)
    then show ?case by (auto simp: dfs.psimps)
  next
    case (2 dag st)
    then show ?case by (simp add: dfs_each.psimps)
  next
    case (3 dag s ss st)
    then show ?case by (auto simp: dfs_each.psimps)
  qed
  from 4 have "fst st \<subseteq> fst (dfs dag s st)" by (rule mono)
  then have "card (fmdom' dag - fst (dfs dag s st)) \<le> card (fmdom' dag - fst st)"
    by (intro card_mono) auto
  then show ?case by auto
qed

text \<open>
  The receiver of \<open>Subtree\<close> and of \<open>reverseDAG\<close> is not used by either, and is left out.
  The source's variable \<open>rev\<close> is written \<open>rev'\<close>, as \<^const>\<open>rev\<close> reverses a list.
\<close>

definition Subtree :: "DAG \<Rightarrow> string \<Rightarrow> string list" where
  "Subtree dag root = sort (snd (dfs dag root ({}, [])))"

text \<open>
  \<open>reverseDAG\<close> ranges over \<open>dag\<close> twice: \<open>ks1\<close> is the order of the loop that enters every
  key with a nil list, \<open>ks2\<close> the order of the loop that appends the edges.
\<close>

definition reverseDAG :: "string list \<Rightarrow> string list \<Rightarrow> DAG \<Rightarrow> DAG" where
  "reverseDAG ks1 ks2 dag =
     fold (\<lambda>n rev'. fold (\<lambda>dep rev'. fmupd dep (dag_at rev' dep @ [n]) rev') (dag_at dag n) rev')
          ks2
          (fold (\<lambda>n rev'. fmupd n [] rev') ks1 fmempty)"

text \<open>
  \<open>Frontiers\<close>: \<open>ks1\<close> and \<open>ks2\<close> are the orders of the two loops of \<open>reverseDAG\<close>, \<open>ks3\<close> the
  order of the loop over the jobs. \<open>sort.Slice\<close> orders the items by \<open>Job\<close>; the jobs of the
  items are distinct keys of \<open>dag\<close>, so the order among equal keys, which Go leaves open,
  never matters.
\<close>

definition Frontiers_step :: "DAGResult \<Rightarrow> DAG \<Rightarrow> DAG \<Rightarrow> string \<Rightarrow> FrontierItem list \<Rightarrow> FrontierItem list" where
  "Frontiers_step r dag rev' job items =
     (let jr = get r job in
      if JobResult.Status jr = JobStatusSuccess then items
      else
        let blockedBy = Blockers r dag job in
        if JobResult.Status jr = JobStatusFailed \<or> JobResult.Status jr = JobStatusInProgress
           \<or> length blockedBy = 0
        then items @ [\<lparr>Job = job, FrontierItem.Status = JobResult.Status jr,
                        BlockedBy = blockedBy, FrontierItem.Subtree = Subtree rev' job,
                        dagResult = r\<rparr>]
        else items)"

definition Frontiers :: "string list \<Rightarrow> string list \<Rightarrow> string list \<Rightarrow> DAGResult \<Rightarrow> DAG \<Rightarrow> FrontierItem list" where
  "Frontiers ks1 ks2 ks3 r dag =
     (let rev' = reverseDAG ks1 ks2 dag;
          items = fold (Frontiers_step r dag rev') ks3 []
      in sort_key Job items)"

text \<open>
  The closure \<open>hasNotSuccessInSubtree\<close> of \<open>BoundarySubtrees\<close>. It captures \<open>memo\<close>, which is
  passed in and returned, and \<open>visiting\<close>: the closure adds \<open>job\<close> to it and the deferred
  \<open>delete\<close> removes it again on every return, so the caller sees \<open>visiting\<close> unchanged and it is
  passed down only. \<open>hasNotSuccess_each\<close> is the loop over \<open>succ[job]\<close>.
\<close>

function hasNotSuccessInSubtree ::
    "DAG \<Rightarrow> DAGResult \<Rightarrow> string set \<Rightarrow> string \<Rightarrow> (string \<rightharpoonup> bool) \<Rightarrow> bool \<times> (string \<rightharpoonup> bool)"
  and hasNotSuccess_each ::
    "DAG \<Rightarrow> DAGResult \<Rightarrow> string set \<Rightarrow> string \<Rightarrow> string list \<Rightarrow> (string \<rightharpoonup> bool)
       \<Rightarrow> bool \<times> (string \<rightharpoonup> bool)"
where
  "hasNotSuccessInSubtree succ r visiting job memo =
     (case memo job of
        Some v \<Rightarrow> (v, memo)
      | None \<Rightarrow>
          if job \<in> visiting then (False, memo)
          else hasNotSuccess_each succ r (insert job visiting) job (dag_at succ job) memo)"
| "hasNotSuccess_each succ r visiting job [] memo = (False, memo(job \<mapsto> False))"
| "hasNotSuccess_each succ r visiting job (s # ss) memo =
     (if \<not> isSuccess r s then (True, memo(job \<mapsto> True))
      else
        (case hasNotSuccessInSubtree succ r visiting s memo of
           (True, memo') \<Rightarrow> (True, memo'(job \<mapsto> True))
         | (False, memo') \<Rightarrow> hasNotSuccess_each succ r visiting job ss memo'))"
  by pat_completeness auto

termination
proof (relation "inv_image (less_than <*lex*> less_than)
    (\<lambda>x. case x of
        Inl (succ, r, visiting, job, memo) \<Rightarrow> (card (fmdom' succ - visiting), 2::nat)
      | Inr (succ, r, visiting, job, ss, memo) \<Rightarrow>
          (card (fmdom' succ - visiting), 2 * length ss + 1))", goal_cases)
  case 1
  show ?case by (intro wf_inv_image wf_lex_prod wf_less_than)
next
  case 2
  then show ?case by (simp add: enter_node_decreases)
next
  case 3
  then show ?case by simp
next
  case 4
  then show ?case by simp
qed

text \<open>
  The first equation of \<open>hasNotSuccessInSubtree\<close> applies to every call; it is unfolded on
  request only.
\<close>

declare hasNotSuccessInSubtree.simps [simp del]

definition BoundarySubtrees_step ::
    "DAGResult \<Rightarrow> DAG \<Rightarrow> string \<Rightarrow> (string \<rightharpoonup> bool) \<times> string list \<Rightarrow> (string \<rightharpoonup> bool) \<times> string list" where
  "BoundarySubtrees_step r succ job st =
     (case st of (memo, out) \<Rightarrow>
        if \<not> isSuccess r job then (memo, out)
        else
          (case hasNotSuccessInSubtree succ r {} job memo of
             (True, memo') \<Rightarrow> (memo', out @ [job])
           | (False, memo') \<Rightarrow> (memo', out)))"

definition BoundarySubtrees :: "string list \<Rightarrow> string list \<Rightarrow> string list \<Rightarrow> DAGResult \<Rightarrow> DAG \<Rightarrow> string list" where
  "BoundarySubtrees ks1 ks2 ks3 r dag =
     (let succ = reverseDAG ks1 ks2 dag in
      sort (snd (fold (BoundarySubtrees_step r succ) ks3 (Map.empty, []))))"

text \<open>The dependency edges of a graph: \<open>(job, dep)\<close> when \<open>dag\<close> lists \<open>dep\<close> under \<open>job\<close>.\<close>

definition edges :: "DAG \<Rightarrow> (string \<times> string) set" where
  "edges dag = {(n, d). d \<in> set (dag_at dag n)}"

subsection \<open>Well-formed results and example data\<close>

text \<open>
  Every entry the package itself stores in a \<open>DAGResult\<close> (\<open>newDAGResult\<close>, \<open>TimeoutError\<close>)
  is the address of a fresh struct. \<open>no_nil r\<close> says that \<open>r\<close> binds no key to a nil pointer.
\<close>

definition no_nil :: "DAGResult \<Rightarrow> bool" where
  "no_nil r \<longleftrightarrow> (\<forall>k \<in> fmdom' r. fmlookup r k \<noteq> Some None)"

text \<open>
  The graph of the README (A first, B and C after A, D after both, E last), a run in which
  B and C were not ready, and one order in which a \<open>range\<close> may visit the five keys.
\<close>

definition ex_dag :: DAG where
  "ex_dag = fmupd ''A'' [] (fmupd ''B'' [''A''] (fmupd ''C'' [''A'']
              (fmupd ''D'' [''B'', ''C''] (fmupd ''E'' [''D''] fmempty))))"

definition ex_result :: DAGResult where
  "ex_result =
     fmupd ''A'' (Some \<lparr>Name = ''A'', JobResult.Status = JobStatusSuccess, Error = None\<rparr>)
    (fmupd ''B'' (Some \<lparr>Name = ''B'', JobResult.Status = JobStatusInProgress, Error = None\<rparr>)
    (fmupd ''C'' (Some \<lparr>Name = ''C'', JobResult.Status = JobStatusInProgress, Error = None\<rparr>)
    (fmupd ''D'' (Some \<lparr>Name = ''D'', JobResult.Status = JobStatusSkipped, Error = None\<rparr>)
    (fmupd ''E'' (Some \<lparr>Name = ''E'', JobResult.Status = JobStatusSkipped, Error = None\<rparr>)
     fmempty))))"

definition ex_order :: "string list" where
  "ex_order = [''E'', ''A'', ''D'', ''C'', ''B'']"

text \<open>The rendering of the number of seconds used in the examples, for a deadline of a minute.\<close>

definition sixty_seconds :: "int \<Rightarrow> string" where
  "sixty_seconds deadline = ''60''"

text \<open>The result of \<open>newDAGResult\<close> for the graph with the single job A.\<close>

definition all_unknown :: DAGResult where
  "all_unknown = newDAGResult [''A''] (fmupd ''A'' [] fmempty)"

subsection \<open>Notions used in the statements and proofs\<close>

text \<open>
  The condition under which \<open>Frontiers\<close> appends an item for a job, and the item it appends.
\<close>

definition in_frontier :: "DAGResult \<Rightarrow> DAG \<Rightarrow> string \<Rightarrow> bool" where
  "in_frontier r dag job \<longleftrightarrow>
     JobResult.Status (get r job) \<noteq> JobStatusSuccess \<and>
     (JobResult.Status (get r job) = JobStatusFailed
      \<or> JobResult.Status (get r job) = JobStatusInProgress
      \<or> Blockers r dag job = [])"

definition item_of :: "DAGResult \<Rightarrow> DAG \<Rightarrow> DAG \<Rightarrow> string \<Rightarrow> FrontierItem" where
  "item_of r dag rev' job =
     \<lparr>Job = job, FrontierItem.Status = JobResult.Status (get r job),
      BlockedBy = Blockers r dag job, FrontierItem.Subtree = Subtree rev' job,
      dagResult = r\<rparr>"

text \<open>
  What \<open>hasNotSuccessInSubtree\<close> is meant to compute for a job: some job below it in the
  graph \<open>succ\<close>, one or more edges away, is not Success. A memo is sound when every answer it
  holds is that one. Two weaker conditions hold on every graph, cyclic or not:
  \<open>memo_true_sound\<close>, that every answer true is right, and \<open>memo_no_miss\<close>, that a job
  remembered with the answer false has no direct successor that is not Success.
\<close>

definition incomplete_below :: "DAG \<Rightarrow> DAGResult \<Rightarrow> string \<Rightarrow> bool" where
  "incomplete_below succ r job \<longleftrightarrow> (\<exists>s. (job, s) \<in> (edges succ)\<^sup>+ \<and> \<not> isSuccess r s)"

definition memo_sound :: "DAG \<Rightarrow> DAGResult \<Rightarrow> (string \<rightharpoonup> bool) \<Rightarrow> bool" where
  "memo_sound succ r memo \<longleftrightarrow> (\<forall>j v. memo j = Some v \<longrightarrow> v = incomplete_below succ r j)"

definition memo_true_sound :: "DAG \<Rightarrow> DAGResult \<Rightarrow> (string \<rightharpoonup> bool) \<Rightarrow> bool" where
  "memo_true_sound succ r memo \<longleftrightarrow>
     (\<forall>j. memo j = Some True \<longrightarrow> incomplete_below succ r j)"

definition memo_no_miss :: "DAG \<Rightarrow> DAGResult \<Rightarrow> (string \<rightharpoonup> bool) \<Rightarrow> bool" where
  "memo_no_miss succ r memo \<longleftrightarrow>
     (\<forall>j. memo j = Some False \<longrightarrow> (\<forall>s \<in> set (dag_at succ j). isSuccess r s))"

text \<open>
  A result that has an entry for A only, and a graph in which B depends on A and on a name
  Z that is no job of the graph.
\<close>

definition partial_result :: DAGResult where
  "partial_result =
     fmupd ''A'' (Some \<lparr>Name = ''A'', JobResult.Status = JobStatusSuccess, Error = None\<rparr>)
       fmempty"

definition dangling_dag :: DAG where
  "dangling_dag = fmupd ''A'' [] (fmupd ''B'' [''A'', ''Z''] fmempty)"

text \<open>
  A graph that is not acyclic (A and B depend on each other, C depends on A), with A and B
  Success and C Failed.
\<close>

definition cyclic_dag :: DAG where
  "cyclic_dag = fmupd ''A'' [''B''] (fmupd ''B'' [''A''] (fmupd ''C'' [''A''] fmempty))"

definition cyclic_result :: DAGResult where
  "cyclic_result =
     fmupd ''A'' (Some \<lparr>Name = ''A'', JobResult.Status = JobStatusSuccess, Error = None\<rparr>)
    (fmupd ''B'' (Some \<lparr>Name = ''B'', JobResult.Status = JobStatusSuccess, Error = None\<rparr>)
    (fmupd ''C'' (Some \<lparr>Name = ''C'', JobResult.Status = JobStatusFailed, Error = Some ''boom''\<rparr>)
     fmempty))"

section \<open>Properties\<close>

subsection \<open>Basic facts about lookups and key orders\<close>

lemma fold_snoc: "fold (\<lambda>x acc. acc @ [x]) xs acc = acc @ xs"
  by (induction xs arbitrary: acc) auto

lemma orderedJobs_sort: "orderedJobs ks r = sort ks"
  by (simp add: orderedJobs_def fold_snoc)

lemma result_at_get: "result_at r k = Some j \<Longrightarrow> get r k = j"
  by (auto simp: result_at_def get_def split: option.splits)

lemma no_nil_result_at: "no_nil r \<Longrightarrow> k \<in> fmdom' r \<Longrightarrow> result_at r k \<noteq> None"
proof -
  assume nn: "no_nil r" and k: "k \<in> fmdom' r"
  from k obtain p where p: "fmlookup r k = Some p" by (auto simp: fmlookup_dom'_iff)
  with nn k have "p \<noteq> None" by (auto simp: no_nil_def)
  with p show ?thesis by (simp add: result_at_def)
qed

lemma ex_order_result: "range_order ex_result ex_order"
  by (auto simp: range_order_def ex_result_def ex_order_def)

lemma ex_order_dag: "range_order ex_dag ex_order"
  by (auto simp: range_order_def ex_dag_def ex_order_def)

lemma ex_no_nil: "no_nil ex_result"
  by (simp add: no_nil_def ex_result_def)

subsection \<open>Aggregate predicates\<close>

lemma IsReady_loop_True:
  "IsReady_loop r xs = Inr True \<longleftrightarrow>
     (\<forall>k \<in> set xs. \<exists>j. result_at r k = Some j \<and>
        JobResult.Status j \<notin> {JobStatusSkipped, JobStatusInProgress, JobStatusFailed})"
  by (induction xs)
     (auto simp: deref_def IsSkipped_def IsInProgress_def JobResult_IsFailed_def
           split: option.splits)

lemma IsSuccessful_loop_True:
  "IsSuccessful_loop r xs = Inr True \<longleftrightarrow>
     (\<forall>k \<in> set xs. \<exists>j. result_at r k = Some j \<and> JobResult.Status j = JobStatusSuccess)"
  by (induction xs) (auto simp: deref_def split: option.splits)

lemma IsReady_loop_total:
  "\<forall>k \<in> set xs. result_at r k \<noteq> None \<Longrightarrow> \<exists>b. IsReady_loop r xs = Inr b"
  by (induction xs) (auto simp: deref_def split: option.splits)

lemma IsSuccessful_loop_total:
  "\<forall>k \<in> set xs. result_at r k \<noteq> None \<Longrightarrow> \<exists>b. IsSuccessful_loop r xs = Inr b"
  by (induction xs) (auto simp: deref_def split: option.splits)

text \<open>
  Claim C1, as amended. \<open>IsReady\<close> returns true exactly when no entry of the result, the
  timeout entry included, is a nil pointer or is Skipped, InProgress or Failed (an Unknown
  entry does not stand in the way); \<open>IsSuccessful\<close> returns true exactly when every entry,
  the timeout entry included, is not nil and is Success. Neither leaves the timeout entry
  out. On a result without nil entries both return a boolean; a nil entry that is reached
  makes them panic.
\<close>

theorem IsReady_IsSuccessful_exact:
  assumes "range_order r ks"
  shows "(IsReady ks r = Inr True \<longleftrightarrow>
            (\<forall>k \<in> fmdom' r. \<exists>j. result_at r k = Some j \<and>
               JobResult.Status j \<notin> {JobStatusSkipped, JobStatusInProgress, JobStatusFailed}))
       \<and> (IsSuccessful ks r = Inr True \<longleftrightarrow>
            (\<forall>k \<in> fmdom' r. \<exists>j. result_at r k = Some j \<and> JobResult.Status j = JobStatusSuccess))
       \<and> (no_nil r \<longrightarrow> (\<exists>b. IsReady ks r = Inr b) \<and> (\<exists>b. IsSuccessful ks r = Inr b))"
proof -
  from assms have ks: "set ks = fmdom' r" by (simp add: range_order_def)
  have "set (sort ks) = fmdom' r" using ks by simp
  then have a: "IsReady ks r = Inr True \<longleftrightarrow>
            (\<forall>k \<in> fmdom' r. \<exists>j. result_at r k = Some j \<and>
               JobResult.Status j \<notin> {JobStatusSkipped, JobStatusInProgress, JobStatusFailed})"
    unfolding IsReady_def orderedJobs_sort IsReady_loop_True by simp
  have b: "IsSuccessful ks r = Inr True \<longleftrightarrow>
            (\<forall>k \<in> fmdom' r. \<exists>j. result_at r k = Some j \<and> JobResult.Status j = JobStatusSuccess)"
    unfolding IsSuccessful_def IsSuccessful_loop_True ks by simp
  have c: "no_nil r \<longrightarrow> (\<exists>b. IsReady ks r = Inr b) \<and> (\<exists>b. IsSuccessful ks r = Inr b)"
    unfolding IsReady_def orderedJobs_sort IsSuccessful_def
    using ks by (auto intro!: IsReady_loop_total IsSuccessful_loop_total dest: no_nil_result_at)
  from a b c show ?thesis by blast
qed

text \<open>
  The theorem at the result \<open>newDAGResult\<close> builds for a one-job graph: its only entry is
  Unknown, \<open>IsReady\<close> is true and \<open>IsSuccessful\<close> is not.
\<close>

theorem IsReady_IsSuccessful_exact_witness:
  "range_order all_unknown [''A''] \<and> no_nil all_unknown
   \<and> IsReady [''A''] all_unknown = Inr True \<and> IsSuccessful [''A''] all_unknown \<noteq> Inr True"
  using IsReady_IsSuccessful_exact[of all_unknown "[''A'']"]
  by (simp add: all_unknown_def newDAGResult_def range_order_def no_nil_def result_at_def)

text \<open>
  Claim C1 as stated fails both ways. A result whose only job A is Unknown is ready, though
  A is not Success. A result whose only job A is Success, with the timeout entry beside it,
  is neither successful nor ready, though every job other than the timeout entry is Success.
\<close>

theorem IsReady_counterexample:
  "IsReady [''A'']
     (fmupd ''A'' (Some \<lparr>Name = ''A'', JobResult.Status = JobStatusUnknown, Error = None\<rparr>)
        fmempty) = Inr True
   \<and> JobStatusUnknown \<noteq> JobStatusSuccess
   \<and> ''A'' \<noteq> timeoutError
   \<and> IsSuccessful [''A'', ''timeout_error'']
        (fmupd ''timeout_error''
           (Some \<lparr>Name = [], JobResult.Status = JobStatusFailed,
                  Error = Some ''timeout after 1''\<rparr>)
        (fmupd ''A'' (Some \<lparr>Name = ''A'', JobResult.Status = JobStatusSuccess, Error = None\<rparr>)
           fmempty)) = Inr False
   \<and> IsReady [''A'', ''timeout_error'']
        (fmupd ''timeout_error''
           (Some \<lparr>Name = [], JobResult.Status = JobStatusFailed,
                  Error = Some ''timeout after 1''\<rparr>)
        (fmupd ''A'' (Some \<lparr>Name = ''A'', JobResult.Status = JobStatusSuccess, Error = None\<rparr>)
           fmempty)) = Inr False"
  by (simp add: IsReady_def IsSuccessful_def orderedJobs_def result_at_def deref_def
        timeoutError_def IsSkipped_def IsInProgress_def JobResult_IsFailed_def)

lemma IsFailed_loop_found:
  "\<forall>k \<in> set xs. result_at r k \<noteq> None \<Longrightarrow>
   IsFailed_loop r xs = Inr (\<exists>k \<in> set xs. JobResult.Status (get r k) = JobStatusFailed)"
  by (induction xs) (auto simp: deref_def dest: result_at_get split: option.splits)

lemma IsFailed_loop_panic: "IsFailed_loop r xs = Inl e \<Longrightarrow> e = NilPointerDereference"
  by (induction xs) (auto simp: deref_def split: option.splits if_splits)

lemma IsFailed_loop_True:
  "IsFailed_loop r xs = Inr True \<longleftrightarrow>
     (\<exists>k \<in> set xs. JobResult.Status (get r k) = JobStatusFailed)
     \<and> (\<forall>k \<in> set (takeWhile (\<lambda>k. JobResult.Status (get r k) \<noteq> JobStatusFailed) xs).
           result_at r k \<noteq> None)"
proof (induction xs)
  case Nil
  then show ?case by simp
next
  case (Cons k xs)
  show ?case
  proof (cases "result_at r k")
    case None
    then have "JobResult.Status (get r k) \<noteq> JobStatusFailed"
      by (auto simp: result_at_def get_def split: option.splits)
    with None show ?thesis by (simp add: deref_def)
  next
    case (Some j)
    then have "get r k = j" by (rule result_at_get)
    with Some Cons.IH show ?thesis by (auto simp: deref_def)
  qed
qed

lemma IsFailed_loop_not_False:
  "k \<in> set xs \<Longrightarrow> result_at r k \<noteq> None \<Longrightarrow> JobResult.Status (get r k) = JobStatusFailed \<Longrightarrow>
   IsFailed_loop r xs \<noteq> Inr False"
proof (induction xs)
  case Nil
  then show ?case by simp
next
  case (Cons x xs)
  show ?case
  proof (cases "result_at r x")
    case None
    then show ?thesis by (simp add: deref_def)
  next
    case (Some j)
    then have "get r x = j" by (rule result_at_get)
    with Some Cons show ?thesis by (auto simp: deref_def)
  qed
qed

lemma no_nil_fmupd: "no_nil r \<Longrightarrow> no_nil (fmupd k (Some j) r)"
  by (auto simp: no_nil_def)

text \<open>
  Claim C7, as amended. \<open>IsTimeouted\<close> is true exactly when the key "timeout\_error" is
  bound. On the nil map \<open>TimeoutError\<close> panics. On any other map it returns, and afterwards
  that key is bound to an entry (not nil) whose status is Failed and whose error is not
  nil, so \<open>IsTimeouted\<close> is true and \<open>IsFailed\<close> never returns false. \<open>IsFailed\<close> returns
  true exactly when no nil entry is visited before the first Failed one, hence in every
  order when the map held no nil entry; it panics when a nil entry is visited first.
\<close>

theorem timeout_entry:
  "(IsTimeouted r \<longleftrightarrow> timeoutError \<in> fmdom' r)
   \<and> timeoutError = ''timeout_error''
   \<and> TimeoutError f d None = Inl AssignmentToNilMap
   \<and> (\<exists>r'. TimeoutError f d (Some r) = Inr r')
   \<and> (\<forall>r'. TimeoutError f d (Some r) = Inr r' \<longrightarrow>
         result_at r' timeoutError \<noteq> None
         \<and> JobResult.Status (get r' timeoutError) = JobStatusFailed
         \<and> Error (get r' timeoutError) \<noteq> None
         \<and> IsTimeouted r'
         \<and> (\<forall>ks. range_order r' ks \<longrightarrow>
               IsFailed ks r' \<noteq> Inr False
               \<and> (IsFailed ks r' = Inr True \<longleftrightarrow>
                    (\<forall>k \<in> set (takeWhile
                                 (\<lambda>k. JobResult.Status (get r' k) \<noteq> JobStatusFailed) ks).
                        result_at r' k \<noteq> None))
               \<and> (IsFailed ks r' \<noteq> Inr True \<longrightarrow> IsFailed ks r' = Inl NilPointerDereference)
               \<and> (no_nil r \<longrightarrow> IsFailed ks r' = Inr True)))"
proof -
  let ?e = "\<lparr>Name = [], JobResult.Status = JobStatusFailed,
             Error = Some (''timeout after '' @ f d)\<rparr>"
  let ?r = "fmupd timeoutError (Some ?e) r"
  have def: "TimeoutError f d (Some r) = Inr ?r" by (simp add: TimeoutError_def)
  have 0: "TimeoutError f d None = Inl AssignmentToNilMap" by (simp add: TimeoutError_def)
  have 1: "IsTimeouted r \<longleftrightarrow> timeoutError \<in> fmdom' r" for r
    by (auto simp: IsTimeouted_def fmlookup_dom'_iff split: option.splits)
  have 2: "result_at ?r timeoutError \<noteq> None"
    "JobResult.Status (get ?r timeoutError) = JobStatusFailed"
    "Error (get ?r timeoutError) \<noteq> None"
    by (simp_all add: result_at_def get_def)
  have 3: "IsTimeouted ?r" by (simp add: IsTimeouted_def)
  have 4: "IsFailed ks ?r \<noteq> Inr False
           \<and> (IsFailed ks ?r = Inr True \<longleftrightarrow>
                (\<forall>k \<in> set (takeWhile (\<lambda>k. JobResult.Status (get ?r k) \<noteq> JobStatusFailed) ks).
                    result_at ?r k \<noteq> None))
           \<and> (IsFailed ks ?r \<noteq> Inr True \<longrightarrow> IsFailed ks ?r = Inl NilPointerDereference)
           \<and> (no_nil r \<longrightarrow> IsFailed ks ?r = Inr True)"
    if ro: "range_order ?r ks" for ks
  proof -
    from ro have ks: "set ks = fmdom' ?r" by (simp add: range_order_def)
    then have t: "timeoutError \<in> set ks" by simp
    have a: "IsFailed ks ?r \<noteq> Inr False"
      unfolding IsFailed_def by (rule IsFailed_loop_not_False[OF t 2(1) 2(2)])
    have b: "IsFailed ks ?r = Inr True \<longleftrightarrow>
                (\<forall>k \<in> set (takeWhile (\<lambda>k. JobResult.Status (get ?r k) \<noteq> JobStatusFailed) ks).
                    result_at ?r k \<noteq> None)"
      unfolding IsFailed_def IsFailed_loop_True using t 2(2) by blast
    have c: "IsFailed ks ?r = Inl NilPointerDereference" if "IsFailed ks ?r \<noteq> Inr True"
    proof (cases "IsFailed ks ?r")
      case (Inl e)
      then show ?thesis by (cases e) (auto simp: IsFailed_def dest: IsFailed_loop_panic)
    next
      case (Inr v)
      with a that show ?thesis by (cases v) auto
    qed
    have d: "IsFailed ks ?r = Inr True" if nn: "no_nil r"
    proof -
      have "\<forall>k \<in> set ks. result_at ?r k \<noteq> None"
        using no_nil_fmupd[OF nn, of timeoutError ?e] ks by (auto dest: no_nil_result_at)
      then have "IsFailed_loop ?r ks
          = Inr (\<exists>k \<in> set ks. JobResult.Status (get ?r k) = JobStatusFailed)"
        by (rule IsFailed_loop_found)
      with t 2(2) show ?thesis by (auto simp: IsFailed_def)
    qed
    from a b c d show ?thesis by blast
  qed
  from 0 1 2 3 4 show ?thesis unfolding def by (simp add: timeoutError_def)
qed

text \<open>
  The theorem at the example run, timed out after a minute: the call returns, the run is
  timed out and failed.
\<close>

theorem timeout_entry_witness:
  "no_nil ex_result
   \<and> TimeoutError sixty_seconds 60000000000 (Some ex_result)
       = Inr (fmupd ''timeout_error''
                (Some \<lparr>Name = [], JobResult.Status = JobStatusFailed,
                       Error = Some ''timeout after 60''\<rparr>) ex_result)
   \<and> range_order (fmupd ''timeout_error''
                (Some \<lparr>Name = [], JobResult.Status = JobStatusFailed,
                       Error = Some ''timeout after 60''\<rparr>) ex_result)
        (''timeout_error'' # ex_order)
   \<and> IsFailed (''timeout_error'' # ex_order)
        (fmupd ''timeout_error''
                (Some \<lparr>Name = [], JobResult.Status = JobStatusFailed,
                       Error = Some ''timeout after 60''\<rparr>) ex_result) = Inr True
   \<and> IsTimeouted (fmupd ''timeout_error''
                (Some \<lparr>Name = [], JobResult.Status = JobStatusFailed,
                       Error = Some ''timeout after 60''\<rparr>) ex_result)
   \<and> \<not> IsTimeouted ex_result"
proof -
  let ?r = "fmupd ''timeout_error''
                (Some \<lparr>Name = [], JobResult.Status = JobStatusFailed,
                       Error = Some ''timeout after 60''\<rparr>) ex_result"
  have def: "TimeoutError sixty_seconds 60000000000 (Some ex_result) = Inr ?r"
    by (simp add: TimeoutError_def sixty_seconds_def timeoutError_def)
  have ro: "range_order ?r (''timeout_error'' # ex_order)"
    by (auto simp: range_order_def ex_result_def ex_order_def)
  have nt: "\<not> IsTimeouted ex_result"
    using timeout_entry[of ex_result sixty_seconds 60000000000]
    by (simp add: ex_result_def timeoutError_def)
  note t = timeout_entry[of ex_result sixty_seconds 60000000000]
  from t def have "IsTimeouted ?r" by blast
  moreover from t def ro ex_no_nil have "IsFailed (''timeout_error'' # ex_order) ?r = Inr True"
    by blast
  ultimately show ?thesis using def ro nt ex_no_nil by simp
qed

text \<open>
  Claim C7 as stated fails on the nil map, where \<open>TimeoutError\<close> panics, and on the map
  that binds B to a nil pointer: after \<open>TimeoutError\<close>, \<open>IsFailed\<close> visiting B before the
  timeout entry panics instead of returning true.
\<close>

theorem timeout_entry_counterexample:
  "TimeoutError sixty_seconds 60000000000 None = Inl AssignmentToNilMap
   \<and> TimeoutError sixty_seconds 60000000000 (Some (fmupd ''B'' None fmempty))
       = Inr (fmupd ''timeout_error''
                (Some \<lparr>Name = [], JobResult.Status = JobStatusFailed,
                       Error = Some ''timeout after 60''\<rparr>)
                (fmupd ''B'' None fmempty))
   \<and> IsFailed [''B'', ''timeout_error'']
        (fmupd ''timeout_error''
           (Some \<lparr>Name = [], JobResult.Status = JobStatusFailed,
                  Error = Some ''timeout after 60''\<rparr>)
           (fmupd ''B'' None fmempty))
       = Inl NilPointerDereference"
  by (simp add: TimeoutError_def sixty_seconds_def timeoutError_def IsFailed_def
        result_at_def deref_def)

text \<open>
  \<open>FirstInProgress\<close> stops at the first key whose entry is nil or InProgress.
\<close>

lemma FirstInProgress_loop_filter:
  "FirstInProgress_loop r xs =
     (case filter (\<lambda>k. result_at r k = None
                        \<or> JobResult.Status (get r k) = JobStatusInProgress) xs of
        [] \<Rightarrow> Inr None
      | k # _ \<Rightarrow>
          (case result_at r k of
             None \<Rightarrow> Inl NilPointerDereference
           | Some j \<Rightarrow> Inr (Some j)))"
proof (induction xs)
  case Nil
  then show ?case by simp
next
  case (Cons k xs)
  show ?case
  proof (cases "result_at r k")
    case None
    then show ?thesis by (simp add: deref_def)
  next
    case (Some j)
    then have "get r k = j" by (rule result_at_get)
    with Some Cons.IH show ?thesis by (simp add: deref_def IsInProgress_def)
  qed
qed

text \<open>
  Claim C8, as amended. \<open>FirstInProgress\<close> visits the keys in the order of strings. It
  returns the entry under an InProgress key when no smaller key is bound to a nil pointer
  or to an InProgress entry, returns nil when no entry is nil or InProgress, and panics at
  a nil entry when no smaller key is bound to a nil pointer or to an InProgress entry. So
  on a result whose entries are not nil it returns the entry under the least InProgress
  key, and nil when no entry is InProgress.
\<close>

theorem FirstInProgress_least:
  assumes "range_order r ks"
  shows "(\<forall>k \<in> fmdom' r. JobResult.Status (get r k) = JobStatusInProgress \<longrightarrow>
            (\<forall>k' \<in> fmdom' r. k' < k \<longrightarrow>
               result_at r k' \<noteq> None \<and> JobResult.Status (get r k') \<noteq> JobStatusInProgress)
            \<longrightarrow> FirstInProgress ks r = Inr (Some (get r k)))
       \<and> ((\<forall>k \<in> fmdom' r. result_at r k \<noteq> None
                            \<and> JobResult.Status (get r k) \<noteq> JobStatusInProgress)
            \<longrightarrow> FirstInProgress ks r = Inr None)
       \<and> (\<forall>k \<in> fmdom' r. result_at r k = None \<longrightarrow>
            (\<forall>k' \<in> fmdom' r. k' < k \<longrightarrow>
               result_at r k' \<noteq> None \<and> JobResult.Status (get r k') \<noteq> JobStatusInProgress)
            \<longrightarrow> FirstInProgress ks r = Inl NilPointerDereference)
       \<and> (no_nil r \<longrightarrow>
            ((\<forall>k \<in> fmdom' r. JobResult.Status (get r k) \<noteq> JobStatusInProgress)
               \<longrightarrow> FirstInProgress ks r = Inr None)
            \<and> (\<forall>k \<in> fmdom' r. JobResult.Status (get r k) = JobStatusInProgress \<longrightarrow>
                 (\<forall>k' \<in> fmdom' r.
                    JobResult.Status (get r k') = JobStatusInProgress \<longrightarrow> k \<le> k')
                 \<longrightarrow> FirstInProgress ks r = Inr (Some (get r k))))"
proof -
  define P where "P = (\<lambda>k. result_at r k = None
                          \<or> JobResult.Status (get r k) = JobStatusInProgress)"
  define res where "res = (\<lambda>k. case result_at r k of
                     None \<Rightarrow> Inl NilPointerDereference | Some j \<Rightarrow> Inr (Some j))"
  define xs where "xs = filter P (sort ks)"
  from assms have ks: "set ks = fmdom' r" by (simp add: range_order_def)
  have eq: "FirstInProgress ks r = (case xs of [] \<Rightarrow> Inr None | k # _ \<Rightarrow> res k)"
    unfolding xs_def P_def res_def FirstInProgress_def orderedJobs_sort
    by (rule FirstInProgress_loop_filter)
  have "sorted (map id (sort ks))" by simp
  then have "sorted (map id (filter P (sort ks)))" by (rule sorted_filter)
  then have srt: "sorted xs" by (simp add: xs_def)
  have set_xs: "k \<in> set xs \<longleftrightarrow> k \<in> fmdom' r \<and> P k" for k
    by (simp add: xs_def ks)
  have none: "FirstInProgress ks r = Inr None" if "\<And>k. k \<in> fmdom' r \<Longrightarrow> \<not> P k"
  proof -
    have "xs = []"
    proof (cases xs)
      case Nil
      then show ?thesis .
    next
      case (Cons h t)
      then have "h \<in> set xs" by simp
      with set_xs that show ?thesis by blast
    qed
    with eq show ?thesis by simp
  qed
  have first: "FirstInProgress ks r = res k"
    if k: "k \<in> fmdom' r" "P k" and least: "\<And>k'. k' \<in> fmdom' r \<Longrightarrow> k' < k \<Longrightarrow> \<not> P k'" for k
  proof -
    from k have kin: "k \<in> set xs" by (simp add: set_xs)
    then obtain h t where ht: "xs = h # t" by (cases xs) auto
    then have "h \<in> set xs" by simp
    then have h_in: "h \<in> fmdom' r" "P h" by (simp_all add: set_xs)
    have "h \<le> k" using srt kin unfolding ht by auto
    moreover have "\<not> h < k" using least[OF h_in(1)] h_in(2) by blast
    ultimately have "h = k" by simp
    with eq ht show ?thesis by simp
  qed
  have notP: "\<not> P k"
    if "result_at r k \<noteq> None" "JobResult.Status (get r k) \<noteq> JobStatusInProgress" for k
    using that by (simp add: P_def)
  have a: "FirstInProgress ks r = Inr (Some (get r k))"
    if k: "k \<in> fmdom' r" and ip: "JobResult.Status (get r k) = JobStatusInProgress"
      and le: "\<forall>k' \<in> fmdom' r. k' < k \<longrightarrow>
         result_at r k' \<noteq> None \<and> JobResult.Status (get r k') \<noteq> JobStatusInProgress" for k
  proof -
    from ip have "result_at r k \<noteq> None"
      by (auto simp: result_at_def get_def split: option.splits)
    then obtain j where j: "result_at r k = Some j" by blast
    then have g: "get r k = j" by (rule result_at_get)
    have "P k" using ip by (simp add: P_def)
    moreover have "\<not> P k'" if "k' \<in> fmdom' r" "k' < k" for k'
      using le that by (intro notP) blast+
    ultimately have "FirstInProgress ks r = res k" using k by (intro first)
    with j g show ?thesis by (simp add: res_def)
  qed
  have b: "FirstInProgress ks r = Inr None"
    if "\<forall>k \<in> fmdom' r. result_at r k \<noteq> None
                          \<and> JobResult.Status (get r k) \<noteq> JobStatusInProgress"
    using that by (intro none notP) blast+
  have c: "FirstInProgress ks r = Inl NilPointerDereference"
    if k: "k \<in> fmdom' r" and nil: "result_at r k = None"
      and le: "\<forall>k' \<in> fmdom' r. k' < k \<longrightarrow>
         result_at r k' \<noteq> None \<and> JobResult.Status (get r k') \<noteq> JobStatusInProgress" for k
  proof -
    have "P k" using nil by (simp add: P_def)
    moreover have "\<not> P k'" if "k' \<in> fmdom' r" "k' < k" for k'
      using le that by (intro notP) blast+
    ultimately have "FirstInProgress ks r = res k" using k by (intro first)
    with nil show ?thesis by (simp add: res_def)
  qed
  have d1: "FirstInProgress ks r = Inr None"
    if nn: "no_nil r"
      and "\<forall>k \<in> fmdom' r. JobResult.Status (get r k) \<noteq> JobStatusInProgress"
  proof (rule b, intro ballI conjI)
    fix k assume "k \<in> fmdom' r"
    then show "result_at r k \<noteq> None" using nn by (rule no_nil_result_at[rotated])
    from \<open>k \<in> fmdom' r\<close> that(2) show "JobResult.Status (get r k) \<noteq> JobStatusInProgress"
      by blast
  qed
  have d2: "FirstInProgress ks r = Inr (Some (get r k))"
    if nn: "no_nil r" and k: "k \<in> fmdom' r"
      and ip: "JobResult.Status (get r k) = JobStatusInProgress"
      and least: "\<forall>k' \<in> fmdom' r.
                    JobResult.Status (get r k') = JobStatusInProgress \<longrightarrow> k \<le> k'" for k
  proof (rule a[OF k ip], intro ballI impI conjI)
    fix k' assume k': "k' \<in> fmdom' r" "k' < k"
    show "result_at r k' \<noteq> None" using nn k'(1) by (rule no_nil_result_at)
    show "JobResult.Status (get r k') \<noteq> JobStatusInProgress"
    proof
      assume "JobResult.Status (get r k') = JobStatusInProgress"
      with least k'(1) have "k \<le> k'" by blast
      with k'(2) show False by simp
    qed
  qed
  show ?thesis
  proof (intro conjI ballI impI)
    fix k assume "k \<in> fmdom' r" "JobResult.Status (get r k) = JobStatusInProgress"
      "\<forall>k' \<in> fmdom' r. k' < k \<longrightarrow>
         result_at r k' \<noteq> None \<and> JobResult.Status (get r k') \<noteq> JobStatusInProgress"
    then show "FirstInProgress ks r = Inr (Some (get r k))" by (rule a)
  next
    assume "\<forall>k \<in> fmdom' r. result_at r k \<noteq> None
                          \<and> JobResult.Status (get r k) \<noteq> JobStatusInProgress"
    then show "FirstInProgress ks r = Inr None" by (rule b)
  next
    fix k assume "k \<in> fmdom' r" "result_at r k = None"
      "\<forall>k' \<in> fmdom' r. k' < k \<longrightarrow>
         result_at r k' \<noteq> None \<and> JobResult.Status (get r k') \<noteq> JobStatusInProgress"
    then show "FirstInProgress ks r = Inl NilPointerDereference" by (rule c)
  next
    assume "no_nil r" "\<forall>k \<in> fmdom' r. JobResult.Status (get r k) \<noteq> JobStatusInProgress"
    then show "FirstInProgress ks r = Inr None" by (rule d1)
  next
    fix k assume "no_nil r" "k \<in> fmdom' r"
      "JobResult.Status (get r k) = JobStatusInProgress"
      "\<forall>k' \<in> fmdom' r. JobResult.Status (get r k') = JobStatusInProgress \<longrightarrow> k \<le> k'"
    then show "FirstInProgress ks r = Inr (Some (get r k))" by (rule d2)
  qed
qed

text \<open>The theorem at the example run, where B and C are both InProgress: B is returned.\<close>

theorem FirstInProgress_least_witness:
  "no_nil ex_result \<and> range_order ex_result ex_order
   \<and> FirstInProgress ex_order ex_result
       = Inr (Some \<lparr>Name = ''B'', JobResult.Status = JobStatusInProgress, Error = None\<rparr>)"
proof -
  note t = FirstInProgress_least[OF ex_order_result]
  have "JobResult.Status (get ex_result ''B'') = JobStatusInProgress"
    "''B'' \<in> fmdom' ex_result"
    "\<forall>k' \<in> fmdom' ex_result.
       JobResult.Status (get ex_result k') = JobStatusInProgress \<longrightarrow> ''B'' \<le> k'"
    by (simp_all add: ex_result_def get_def)
  with t ex_no_nil have "FirstInProgress ex_order ex_result = Inr (Some (get ex_result ''B''))"
    by blast
  then show ?thesis using ex_no_nil ex_order_result by (simp add: ex_result_def get_def)
qed

text \<open>
  Claim C8 as stated fails on results with a nil entry. With A bound to a nil pointer and
  B InProgress, the call panics at A instead of returning B's entry; with A alone, bound
  to a nil pointer, no entry is InProgress and the call panics instead of returning nil.
\<close>

theorem FirstInProgress_counterexample:
  "FirstInProgress [''B'', ''A'']
     (fmupd ''A'' None
     (fmupd ''B'' (Some \<lparr>Name = ''B'', JobResult.Status = JobStatusInProgress, Error = None\<rparr>)
        fmempty)) = Inl NilPointerDereference
   \<and> FirstInProgress [''A''] (fmupd ''A'' None fmempty) = Inl NilPointerDereference"
  by (simp add: FirstInProgress_def orderedJobs_def result_at_def deref_def)

subsection \<open>Blockers\<close>

text \<open>
  Claim C6. \<open>Blockers\<close> returns the direct dependencies of the job whose status is not
  Success, each as often as the graph lists it, in sorted order; the result is empty when
  the job has no dependencies and when all of them are Success.
\<close>

theorem Blockers_spec:
  "set (Blockers r dag job)
     = {d \<in> set (dag_at dag job). JobResult.Status (get r d) \<noteq> JobStatusSuccess}
   \<and> sorted (Blockers r dag job)
   \<and> mset (Blockers r dag job) = filter_mset (\<lambda>d. \<not> isSuccess r d) (mset (dag_at dag job))
   \<and> (dag_at dag job = [] \<longrightarrow> Blockers r dag job = [])
   \<and> ((\<forall>d \<in> set (dag_at dag job). JobResult.Status (get r d) = JobStatusSuccess)
        \<longrightarrow> Blockers r dag job = [])"
  by (auto simp: Blockers_def isSuccess_def Let_def filter_empty_conv)

text \<open>The theorem at the example run: D is blocked by B and C, A and B by nothing.\<close>

theorem Blockers_spec_witness:
  "Blockers ex_result ex_dag ''D'' = [''B'', ''C'']
   \<and> Blockers ex_result ex_dag ''A'' = [] \<and> Blockers ex_result ex_dag ''B'' = []"
  using Blockers_spec[of ex_result ex_dag "''D''"] Blockers_spec[of ex_result ex_dag "''A''"]
    Blockers_spec[of ex_result ex_dag "''B''"]
  by (simp add: Blockers_def ex_result_def ex_dag_def dag_at_def get_def isSuccess_def)

subsection \<open>Graphs and their edges\<close>

lemma dag_at_fmupd [simp]: "dag_at (fmupd k v m) x = (if k = x then v else dag_at m x)"
  by (simp add: dag_at_def)

lemma dag_at_fmempty [simp]: "dag_at fmempty x = []"
  by (simp add: dag_at_def)

lemma dag_at_not_key: "x \<notin> fmdom' dag \<Longrightarrow> dag_at dag x = []"
  by (auto simp: dag_at_def split: option.splits)

lemma edges_iff: "(n, d) \<in> edges dag \<longleftrightarrow> d \<in> set (dag_at dag n)"
  by (simp add: edges_def)

lemma Domain_edges: "Domain (edges dag) \<subseteq> fmdom' dag"
  using dag_at_not_key by (fastforce simp: edges_def)

lemma acyclic_by_rank:
  fixes f :: "'a \<Rightarrow> nat"
  assumes "\<And>a b. (a, b) \<in> R \<Longrightarrow> f b < f a"
  shows "acyclic R"
proof -
  have "R\<inverse> \<subseteq> measure f" using assms by auto
  then have "wf (R\<inverse>)" by (rule wf_subset[OF wf_measure])
  then have "acyclic (R\<inverse>)" by (rule wf_acyclic)
  then show ?thesis by simp
qed

lemma ex_dag_acyclic: "acyclic (edges ex_dag)"
proof (rule acyclic_by_rank[where f = "\<lambda>n. of_char (hd n)"])
  fix a b assume "(a, b) \<in> edges ex_dag"
  then show "(of_char (hd b) :: nat) < of_char (hd a)"
    by (auto simp: edges_def ex_dag_def split: if_splits)
qed

subsection \<open>reverseDAG\<close>

lemma init_keys:
  "fmdom' (fold (\<lambda>n rev'. fmupd n [] rev') ks acc) = set ks \<union> fmdom' acc"
  by (induction ks arbitrary: acc) auto

lemma init_at:
  "dag_at (fold (\<lambda>n rev'. fmupd n [] rev') ks acc) x = (if x \<in> set ks then [] else dag_at acc x)"
  by (induction ks arbitrary: acc) auto

lemma append_keys:
  "fmdom' (fold (\<lambda>dep rev'. fmupd dep (dag_at rev' dep @ [n]) rev') deps acc)
     = set deps \<union> fmdom' acc"
  by (induction deps arbitrary: acc) auto

lemma append_at:
  "set (dag_at (fold (\<lambda>dep rev'. fmupd dep (dag_at rev' dep @ [n]) rev') deps acc) x)
     = set (dag_at acc x) \<union> (if x \<in> set deps then {n} else {})"
  by (induction deps arbitrary: acc) auto

lemma edges_loop_keys:
  "fmdom' (fold (\<lambda>n rev'. fold (\<lambda>dep rev'. fmupd dep (dag_at rev' dep @ [n]) rev')
                               (dag_at dag n) rev') ks acc)
     = fmdom' acc \<union> (\<Union>n \<in> set ks. set (dag_at dag n))"
  by (induction ks arbitrary: acc) (auto simp: append_keys)

lemma edges_loop_at:
  "set (dag_at (fold (\<lambda>n rev'. fold (\<lambda>dep rev'. fmupd dep (dag_at rev' dep @ [n]) rev')
                               (dag_at dag n) rev') ks acc) x)
     = set (dag_at acc x) \<union> {n \<in> set ks. x \<in> set (dag_at dag n)}"
  by (induction ks arbitrary: acc) (auto simp: append_at)

lemma reverseDAG_keys:
  "set ks1 = fmdom' dag \<Longrightarrow> set ks2 = fmdom' dag \<Longrightarrow>
   fmdom' (reverseDAG ks1 ks2 dag) = fmdom' dag \<union> Range (edges dag)"
proof -
  assume k: "set ks1 = fmdom' dag" "set ks2 = fmdom' dag"
  have "(\<Union>n \<in> fmdom' dag. set (dag_at dag n)) = Range (edges dag)"
    using dag_at_not_key by (fastforce simp: edges_def)
  with k show ?thesis
    by (simp add: reverseDAG_def edges_loop_keys init_keys)
qed

lemma reverseDAG_at:
  "set ks2 = fmdom' dag \<Longrightarrow>
   set (dag_at (reverseDAG ks1 ks2 dag) dep) = {n. dep \<in> set (dag_at dag n)}"
proof -
  assume k: "set ks2 = fmdom' dag"
  have "{n \<in> fmdom' dag. dep \<in> set (dag_at dag n)} = {n. dep \<in> set (dag_at dag n)}"
    using dag_at_not_key by fastforce
  with k show ?thesis
    by (simp add: reverseDAG_def edges_loop_at init_at)
qed

lemma edges_reverseDAG:
  "set ks2 = fmdom' dag \<Longrightarrow> edges (reverseDAG ks1 ks2 dag) = (edges dag)\<inverse>"
  by (auto simp: edges_def reverseDAG_at)

text \<open>
  Claim C10, as amended. The keys of \<open>reverseDAG d\<close> are the keys of \<open>d\<close> together with every
  name that \<open>d\<close> lists as a dependency, so the key sets agree exactly when every dependency
  is a key of \<open>d\<close>. \<open>reverseDAG d\<close> lists \<open>job\<close> under \<open>dep\<close> exactly when \<open>d\<close> lists \<open>dep\<close>
  under \<open>job\<close>. Reversing twice gives back the edges of \<open>d\<close> (the lists compared as sets),
  over the keys of \<open>reverseDAG d\<close>.
\<close>

theorem reverseDAG_spec:
  assumes "range_order dag ks1" and "range_order dag ks2"
  shows "fmdom' (reverseDAG ks1 ks2 dag) = fmdom' dag \<union> {dep. \<exists>job. dep \<in> set (dag_at dag job)}
       \<and> ((\<forall>job. set (dag_at dag job) \<subseteq> fmdom' dag)
            \<longrightarrow> fmdom' (reverseDAG ks1 ks2 dag) = fmdom' dag)
       \<and> (\<forall>dep job. job \<in> set (dag_at (reverseDAG ks1 ks2 dag) dep)
                        \<longleftrightarrow> dep \<in> set (dag_at dag job))
       \<and> (\<forall>ks3 ks4. range_order (reverseDAG ks1 ks2 dag) ks3 \<longrightarrow>
                      range_order (reverseDAG ks1 ks2 dag) ks4 \<longrightarrow>
            (\<forall>job. set (dag_at (reverseDAG ks3 ks4 (reverseDAG ks1 ks2 dag)) job)
                      = set (dag_at dag job))
            \<and> fmdom' (reverseDAG ks3 ks4 (reverseDAG ks1 ks2 dag))
                = fmdom' dag \<union> {dep. \<exists>job. dep \<in> set (dag_at dag job)})"
proof -
  let ?rev = "reverseDAG ks1 ks2 dag"
  from assms have k: "set ks1 = fmdom' dag" "set ks2 = fmdom' dag"
    by (simp_all add: range_order_def)
  have R: "Range (edges dag) = {dep. \<exists>job. dep \<in> set (dag_at dag job)}"
    by (auto simp: edges_def)
  have keys: "fmdom' ?rev = fmdom' dag \<union> {dep. \<exists>job. dep \<in> set (dag_at dag job)}"
    using reverseDAG_keys[OF k] R by simp
  have closed: "fmdom' ?rev = fmdom' dag" if "\<forall>job. set (dag_at dag job) \<subseteq> fmdom' dag"
    using keys that by auto
  have at: "job \<in> set (dag_at ?rev dep) \<longleftrightarrow> dep \<in> set (dag_at dag job)" for dep job
    by (simp add: reverseDAG_at[OF k(2)])
  have twice: "(\<forall>job. set (dag_at (reverseDAG ks3 ks4 ?rev) job) = set (dag_at dag job))
      \<and> fmdom' (reverseDAG ks3 ks4 ?rev) = fmdom' dag \<union> {dep. \<exists>job. dep \<in> set (dag_at dag job)}"
    if "range_order ?rev ks3" "range_order ?rev ks4" for ks3 ks4
  proof -
    from that have k': "set ks3 = fmdom' ?rev" "set ks4 = fmdom' ?rev"
      by (simp_all add: range_order_def)
    have "set (dag_at (reverseDAG ks3 ks4 ?rev) job) = set (dag_at dag job)" for job
      by (simp add: reverseDAG_at[OF k'(2)] reverseDAG_at[OF k(2)])
    moreover have "Range (edges ?rev) \<subseteq> fmdom' dag"
      using Domain_edges[of dag] by (auto simp: edges_reverseDAG[OF k(2)])
    then have "fmdom' (reverseDAG ks3 ks4 ?rev) = fmdom' ?rev"
      using reverseDAG_keys[OF k'] keys by auto
    ultimately show ?thesis using keys by simp
  qed
  from keys closed at twice show ?thesis by blast
qed

text \<open>The theorem at the example graph, where every dependency is a key.\<close>

theorem reverseDAG_spec_witness:
  "range_order ex_dag ex_order
   \<and> fmdom' (reverseDAG ex_order ex_order ex_dag) = fmdom' ex_dag
   \<and> set (dag_at (reverseDAG ex_order ex_order ex_dag) ''A'') = {''B'', ''C''}
   \<and> dag_at (reverseDAG ex_order ex_order ex_dag) ''E'' = []
   \<and> range_order (reverseDAG ex_order ex_order ex_dag) ex_order
   \<and> set (dag_at (reverseDAG ex_order ex_order (reverseDAG ex_order ex_order ex_dag)) ''D'')
       = {''B'', ''C''}"
proof -
  note t = reverseDAG_spec[OF ex_order_dag ex_order_dag]
  have keys: "fmdom' (reverseDAG ex_order ex_order ex_dag) = fmdom' ex_dag"
    using t by (auto simp: ex_dag_def)
  with ex_order_dag have ro: "range_order (reverseDAG ex_order ex_order ex_dag) ex_order"
    by (simp add: range_order_def)
  from t ro
  have "set (dag_at (reverseDAG ex_order ex_order (reverseDAG ex_order ex_order ex_dag)) ''D'')
          = set (dag_at ex_dag ''D'')"
    by blast
  then have twice:
    "set (dag_at (reverseDAG ex_order ex_order (reverseDAG ex_order ex_order ex_dag)) ''D'')
       = {''B'', ''C''}"
    by (simp add: ex_dag_def)
  have "set (dag_at (reverseDAG ex_order ex_order ex_dag) ''A'') = {''B'', ''C''}"
    "dag_at (reverseDAG ex_order ex_order ex_dag) ''E'' = []"
    by (auto simp: reverseDAG_def ex_dag_def ex_order_def)
  with keys ro twice ex_order_dag show ?thesis by simp
qed

text \<open>
  Claim C10 as stated fails on the graph whose only job A depends on B, a name that is no
  key: \<open>reverseDAG\<close> stores the edge from B to A under the new key B.
\<close>

theorem reverseDAG_counterexample:
  "fmlookup (reverseDAG [''A''] [''A''] (fmupd ''A'' [''B''] fmempty)) ''B'' = Some [''A'']
   \<and> fmlookup (fmupd ''A'' [''B''] fmempty) ''B'' = None
   \<and> fmdom' (reverseDAG [''A''] [''A''] (fmupd ''A'' [''B''] fmempty)) = {''A'', ''B''}
   \<and> fmdom' (fmupd ''A'' [''B''] fmempty) = {''A''}"
  by (auto simp: reverseDAG_def)

subsection \<open>Subtree\<close>

lemma dfs_mono:
  "fst st \<subseteq> fst (dfs dag n st)"
  "fst st \<subseteq> fst (dfs_each dag ss st)"
  by (induction dag n st and dag ss st rule: dfs_dfs_each.induct) auto

lemma dfs_out:
  "set (snd st) = fst st \<and> distinct (snd st) \<Longrightarrow>
     set (snd (dfs dag n st)) = fst (dfs dag n st) \<and> distinct (snd (dfs dag n st))"
  "set (snd st) = fst st \<and> distinct (snd st) \<Longrightarrow>
     set (snd (dfs_each dag ss st)) = fst (dfs_each dag ss st) \<and> distinct (snd (dfs_each dag ss st))"
  by (induction dag n st and dag ss st rule: dfs_dfs_each.induct) auto

lemma dfs_sound:
  "fst (dfs dag n st) \<subseteq> fst st \<union> {m. (n, m) \<in> (edges dag)\<^sup>*}"
  "fst (dfs_each dag ss st) \<subseteq> fst st \<union> {m. \<exists>s \<in> set ss. (s, m) \<in> (edges dag)\<^sup>*}"
proof (induction dag n st and dag ss st rule: dfs_dfs_each.induct)
  case (1 dag n seen out)
  show ?case
  proof (cases "n \<in> seen")
    case True
    then show ?thesis by simp
  next
    case False
    have "(n, m) \<in> (edges dag)\<^sup>*" if "s \<in> set (dag_at dag n)" "(s, m) \<in> (edges dag)\<^sup>*" for s m
      using that by (meson converse_rtrancl_into_rtrancl edges_iff)
    with 1[OF False] False show ?thesis by auto
  qed
next
  case (2 dag st)
  then show ?case by simp
next
  case (3 dag s ss st)
  then show ?case by auto
qed

lemma dfs_closed:
  "n \<in> fst (dfs dag n st) \<and>
     (\<forall>x \<in> fst (dfs dag n st) - fst st. set (dag_at dag x) \<subseteq> fst (dfs dag n st))"
  "set ss \<subseteq> fst (dfs_each dag ss st) \<and>
     (\<forall>x \<in> fst (dfs_each dag ss st) - fst st. set (dag_at dag x) \<subseteq> fst (dfs_each dag ss st))"
proof (induction dag n st and dag ss st rule: dfs_dfs_each.induct)
  case (1 dag n seen out)
  show ?case
  proof (cases "n \<in> seen")
    case True
    then show ?thesis by simp
  next
    case False
    let ?S = "fst (dfs_each dag (dag_at dag n) (insert n seen, out @ [n]))"
    have "insert n seen \<subseteq> ?S" using dfs_mono(2)[of "(insert n seen, out @ [n])"] by simp
    with 1[OF False] False show ?thesis by auto
  qed
next
  case (2 dag st)
  then show ?case by simp
next
  case (3 dag s ss st)
  let ?S1 = "fst (dfs dag s st)"
  let ?S2 = "fst (dfs_each dag ss (dfs dag s st))"
  have m: "?S1 \<subseteq> ?S2" by (rule dfs_mono(2))
  from 3 have a: "s \<in> ?S1" "\<forall>x \<in> ?S1 - fst st. set (dag_at dag x) \<subseteq> ?S1"
    and b: "set ss \<subseteq> ?S2" "\<forall>x \<in> ?S2 - ?S1. set (dag_at dag x) \<subseteq> ?S2"
    by blast+
  have "set (dag_at dag x) \<subseteq> ?S2" if "x \<in> ?S2 - fst st" for x
  proof (cases "x \<in> ?S1")
    case True
    with that a(2) have "set (dag_at dag x) \<subseteq> ?S1" by blast
    with m show ?thesis by blast
  next
    case False
    with that b(2) show ?thesis by blast
  qed
  with a(1) b(1) m show ?case by auto
qed

lemma closed_reach:
  assumes "(root, m) \<in> (edges dag)\<^sup>*" and "root \<in> S"
    and "\<forall>x \<in> S. set (dag_at dag x) \<subseteq> S"
  shows "m \<in> S"
  using assms by (induction rule: rtrancl_induct) (auto simp: edges_iff)

lemma dfs_reach: "fst (dfs dag root ({}, [])) = {m. (root, m) \<in> (edges dag)\<^sup>*}"
proof
  show "fst (dfs dag root ({}, [])) \<subseteq> {m. (root, m) \<in> (edges dag)\<^sup>*}"
    using dfs_sound(1)[of dag root "({}, [])"] by simp
  show "{m. (root, m) \<in> (edges dag)\<^sup>*} \<subseteq> fst (dfs dag root ({}, []))"
    using dfs_closed(1)[of root dag "({}, [])"] by (auto intro: closed_reach)
qed

lemma set_Subtree: "set (Subtree dag root) = {m. (root, m) \<in> (edges dag)\<^sup>*}"
proof -
  have "set (snd (dfs dag root ({}, []))) = fst (dfs dag root ({}, []))"
    by (rule dfs_out(1)[THEN conjunct1]) simp
  then show ?thesis unfolding Subtree_def dfs_reach[symmetric] by simp
qed

lemma distinct_Subtree: "distinct (Subtree dag root)"
proof -
  have "distinct (snd (dfs dag root ({}, [])))"
    by (rule dfs_out(1)[THEN conjunct2]) simp
  then show ?thesis unfolding Subtree_def by simp
qed

lemma sorted_Subtree: "sorted (Subtree dag root)"
  by (simp add: Subtree_def)

text \<open>
  Claim C5. For every edge mapping and every root, \<open>Subtree\<close> returns the nodes reachable
  from the root along the edges, the root among them, each once, in sorted order. The
  result is the sorted list of that set, so it is determined by the inputs alone (and not,
  for instance, by the order in which an adjacency list names its nodes).
\<close>

theorem Subtree_spec:
  "set (Subtree dag root) = {m. (root, m) \<in> (edges dag)\<^sup>*}
   \<and> root \<in> set (Subtree dag root)
   \<and> distinct (Subtree dag root)
   \<and> sorted (Subtree dag root)
   \<and> Subtree dag root = sorted_list_of_set {m. (root, m) \<in> (edges dag)\<^sup>*}"
proof -
  have "Subtree dag root = sorted_list_of_set (set (Subtree dag root))"
    using distinct_Subtree sorted_Subtree
    by (metis sorted_list_of_set.idem_if_sorted_distinct)
  then show ?thesis
    using set_Subtree[of dag root] distinct_Subtree[of dag root] sorted_Subtree[of dag root]
    by auto
qed

text \<open>The theorem at the example graph and at its reverse.\<close>

theorem Subtree_spec_witness:
  "Subtree ex_dag ''D'' = [''A'', ''B'', ''C'', ''D'']
   \<and> Subtree (reverseDAG ex_order ex_order ex_dag) ''B'' = [''B'', ''D'', ''E'']"
  using Subtree_spec[of ex_dag "''D''"]
  by (simp add: Subtree_def reverseDAG_def ex_dag_def ex_order_def)

subsection \<open>Frontiers\<close>

lemma set_Blockers:
  "set (Blockers r dag job)
     = {d \<in> set (dag_at dag job). JobResult.Status (get r d) \<noteq> JobStatusSuccess}"
  by (auto simp: Blockers_def isSuccess_def Let_def)

lemma Blockers_empty_iff:
  "Blockers r dag job = [] \<longleftrightarrow>
     (\<forall>d \<in> set (dag_at dag job). JobResult.Status (get r d) = JobStatusSuccess)"
  using set_Blockers[of r dag job] by (auto simp flip: set_empty)

lemma map_sort_key: "map f (sort_key f xs) = sort (map f xs)"
  by (rule properties_for_sort[symmetric]) simp_all

lemma Frontiers_fold:
  "fold (Frontiers_step r dag rev') ks acc
     = acc @ map (item_of r dag rev') (filter (in_frontier r dag) ks)"
  by (induction ks arbitrary: acc)
     (auto simp: Frontiers_step_def in_frontier_def item_of_def Let_def)

lemma Job_item_of [simp]: "Job (item_of r dag rev' job) = job"
  by (simp add: item_of_def)

lemma Frontiers_items:
  "set (Frontiers ks1 ks2 ks3 r dag)
     = item_of r dag (reverseDAG ks1 ks2 dag) ` {job \<in> set ks3. in_frontier r dag job}"
  by (auto simp: Frontiers_def Frontiers_fold Let_def)

lemma map_Job_item_of [simp]: "map (Job \<circ> item_of r dag rev') xs = xs"
  by (induction xs) auto

lemma Frontiers_jobs:
  "map Job (Frontiers ks1 ks2 ks3 r dag) = sort (filter (in_frontier r dag) ks3)"
proof -
  let ?items = "map (item_of r dag (reverseDAG ks1 ks2 dag)) (filter (in_frontier r dag) ks3)"
  have "map Job (sort_key Job ?items) = sort (map Job ?items)"
    by (rule map_sort_key)
  then show ?thesis by (simp add: Frontiers_def Frontiers_fold Let_def)
qed

lemma ex_Frontiers:
  "Frontiers ex_order ex_order ex_order ex_result ex_dag
     = [\<lparr>Job = ''B'', FrontierItem.Status = JobStatusInProgress, BlockedBy = [],
         FrontierItem.Subtree = [''B'', ''D'', ''E''], dagResult = ex_result\<rparr>,
        \<lparr>Job = ''C'', FrontierItem.Status = JobStatusInProgress, BlockedBy = [],
         FrontierItem.Subtree = [''C'', ''D'', ''E''], dagResult = ex_result\<rparr>]"
proof -
  have st: "JobResult.Status (get ex_result ''A'') = JobStatusSuccess"
    "JobResult.Status (get ex_result ''B'') = JobStatusInProgress"
    "JobResult.Status (get ex_result ''C'') = JobStatusInProgress"
    "JobResult.Status (get ex_result ''D'') = JobStatusSkipped"
    "JobResult.Status (get ex_result ''E'') = JobStatusSkipped"
    by (simp_all add: get_def ex_result_def)
  have bl: "Blockers ex_result ex_dag ''B'' = []" "Blockers ex_result ex_dag ''C'' = []"
    "Blockers ex_result ex_dag ''D'' = [''B'', ''C'']"
    "Blockers ex_result ex_dag ''E'' = [''D'']"
    by (simp_all add: Blockers_def isSuccess_def st ex_dag_def)
  have sub: "Subtree (reverseDAG ex_order ex_order ex_dag) ''B'' = [''B'', ''D'', ''E'']"
    "Subtree (reverseDAG ex_order ex_order ex_dag) ''C'' = [''C'', ''D'', ''E'']"
    by (simp_all add: Subtree_def reverseDAG_def ex_dag_def ex_order_def)
  show ?thesis
    by (simp add: Frontiers_def Frontiers_step_def Let_def st bl
          sub[unfolded ex_order_def] ex_order_def)
qed

text \<open>
  Claim C2. \<open>Frontiers\<close> holds an item for a job of the graph exactly when the job's status
  (read through \<open>get\<close>) is not Success and it is Failed, or InProgress, or all its direct
  dependencies are Success. The items are sorted by job name, one per job; each carries
  the job's status and its blockers. No item is Success, and every Failed and every
  InProgress job of the graph has an item.
\<close>

theorem Frontiers_spec:
  assumes "range_order dag ks3"
  shows "set (map Job (Frontiers ks1 ks2 ks3 r dag))
           = {job \<in> fmdom' dag.
                JobResult.Status (get r job) \<noteq> JobStatusSuccess \<and>
                (JobResult.Status (get r job) = JobStatusFailed
                 \<or> JobResult.Status (get r job) = JobStatusInProgress
                 \<or> (\<forall>d \<in> set (dag_at dag job). JobResult.Status (get r d) = JobStatusSuccess))}
       \<and> sorted (map Job (Frontiers ks1 ks2 ks3 r dag))
       \<and> distinct (map Job (Frontiers ks1 ks2 ks3 r dag))
       \<and> (\<forall>item \<in> set (Frontiers ks1 ks2 ks3 r dag).
            FrontierItem.Status item = JobResult.Status (get r (Job item))
            \<and> FrontierItem.Status item \<noteq> JobStatusSuccess
            \<and> BlockedBy item = Blockers r dag (Job item))
       \<and> (\<forall>job \<in> fmdom' dag.
            JobResult.Status (get r job) = JobStatusFailed
            \<or> JobResult.Status (get r job) = JobStatusInProgress
            \<longrightarrow> job \<in> set (map Job (Frontiers ks1 ks2 ks3 r dag)))"
proof -
  from assms have d: "distinct ks3" and k: "set ks3 = fmdom' dag"
    by (simp_all add: range_order_def)
  let ?F = "Frontiers ks1 ks2 ks3 r dag"
  have jobs: "map Job ?F = sort (filter (in_frontier r dag) ks3)"
    by (rule Frontiers_jobs)
  have 1: "set (map Job ?F) = {job \<in> fmdom' dag.
                JobResult.Status (get r job) \<noteq> JobStatusSuccess \<and>
                (JobResult.Status (get r job) = JobStatusFailed
                 \<or> JobResult.Status (get r job) = JobStatusInProgress
                 \<or> (\<forall>d \<in> set (dag_at dag job). JobResult.Status (get r d) = JobStatusSuccess))}"
    unfolding jobs using k by (auto simp: in_frontier_def Blockers_empty_iff)
  have 2: "sorted (map Job ?F)" "distinct (map Job ?F)"
    unfolding jobs using d by simp_all
  have 3: "\<forall>item \<in> set ?F.
            FrontierItem.Status item = JobResult.Status (get r (Job item))
            \<and> FrontierItem.Status item \<noteq> JobStatusSuccess
            \<and> BlockedBy item = Blockers r dag (Job item)"
    unfolding Frontiers_items by (auto simp: item_of_def in_frontier_def)
  have 4: "\<forall>job \<in> fmdom' dag.
            JobResult.Status (get r job) = JobStatusFailed
            \<or> JobResult.Status (get r job) = JobStatusInProgress
            \<longrightarrow> job \<in> set (map Job ?F)"
    unfolding 1 by auto
  from 1 2 3 4 show ?thesis by blast
qed

text \<open>The theorem at the example run: the frontier is B and C.\<close>

theorem Frontiers_spec_witness:
  "range_order ex_dag ex_order
   \<and> map Job (Frontiers ex_order ex_order ex_order ex_result ex_dag) = [''B'', ''C'']
   \<and> map FrontierItem.Status (Frontiers ex_order ex_order ex_order ex_result ex_dag)
       = [JobStatusInProgress, JobStatusInProgress]"
proof -
  note t = Frontiers_spec[OF ex_order_dag, of ex_order ex_order ex_result]
  from t have "sorted (map Job (Frontiers ex_order ex_order ex_order ex_result ex_dag))"
    by blast
  then show ?thesis using ex_order_dag by (simp add: ex_Frontiers)
qed

text \<open>
  Claim C4, as amended. The \<open>Subtree\<close> field of every item is the sorted,
  duplicate-free list of the job itself together with the jobs that depend on it through
  one or more edges.
\<close>

theorem Frontiers_Subtree:
  assumes "range_order dag ks1" and "range_order dag ks2" and "range_order dag ks3"
  shows "\<forall>item \<in> set (Frontiers ks1 ks2 ks3 r dag).
           set (FrontierItem.Subtree item)
             = insert (Job item) {n. (n, Job item) \<in> (edges dag)\<^sup>+}
           \<and> sorted (FrontierItem.Subtree item)
           \<and> distinct (FrontierItem.Subtree item)"
proof
  fix item assume "item \<in> set (Frontiers ks1 ks2 ks3 r dag)"
  then obtain job where item: "item = item_of r dag (reverseDAG ks1 ks2 dag) job"
    unfolding Frontiers_items by blast
  from assms(2) have k: "set ks2 = fmdom' dag" by (simp add: range_order_def)
  have "set (Subtree (reverseDAG ks1 ks2 dag) job) = {n. (job, n) \<in> ((edges dag)\<inverse>)\<^sup>*}"
    by (simp add: set_Subtree edges_reverseDAG[OF k])
  also have "\<dots> = {n. (n, job) \<in> (edges dag)\<^sup>*}"
    by (simp add: rtrancl_converse)
  also have "\<dots> = insert job {n. (n, job) \<in> (edges dag)\<^sup>+}"
    by (auto simp: rtrancl_eq_or_trancl)
  finally show "set (FrontierItem.Subtree item)
             = insert (Job item) {n. (n, Job item) \<in> (edges dag)\<^sup>+}
           \<and> sorted (FrontierItem.Subtree item)
           \<and> distinct (FrontierItem.Subtree item)"
    by (simp add: item item_of_def sorted_Subtree distinct_Subtree)
qed

text \<open>The theorem at the example run: B with D and E, C with D and E.\<close>

theorem Frontiers_Subtree_witness:
  "range_order ex_dag ex_order
   \<and> map FrontierItem.Subtree (Frontiers ex_order ex_order ex_order ex_result ex_dag)
       = [[''B'', ''D'', ''E''], [''C'', ''D'', ''E'']]"
proof -
  note t = Frontiers_Subtree[OF ex_order_dag ex_order_dag ex_order_dag, of ex_result]
  from t have "list_all (\<lambda>item. sorted (FrontierItem.Subtree item))
                 (Frontiers ex_order ex_order ex_order ex_result ex_dag)"
    unfolding list_all_iff by blast
  then show ?thesis using ex_order_dag by (simp add: ex_Frontiers)
qed

text \<open>
  Claim C4 as stated fails on the graph with the single job A, still Unknown: nothing
  depends on A, yet the \<open>Subtree\<close> field of its item is not empty, it holds A.
\<close>

theorem Frontiers_Subtree_counterexample:
  "map FrontierItem.Subtree
     (Frontiers [''A''] [''A''] [''A'']
        (fmupd ''A'' (Some \<lparr>Name = ''A'', JobResult.Status = JobStatusUnknown, Error = None\<rparr>)
           fmempty)
        (fmupd ''A'' [] fmempty))
     = [[''A'']]
   \<and> edges (fmupd ''A'' [] fmempty) = {}"
  by (simp add: Frontiers_def Frontiers_step_def Blockers_def isSuccess_def get_def
        Subtree_def reverseDAG_def edges_def)

subsection \<open>BoundarySubtrees\<close>

lemma incomplete_below_step:
  "incomplete_below succ r job \<longleftrightarrow>
     (\<exists>s \<in> set (dag_at succ job). \<not> isSuccess r s \<or> incomplete_below succ r s)"
proof
  assume "incomplete_below succ r job"
  then obtain t where t: "(job, t) \<in> (edges succ)\<^sup>+" "\<not> isSuccess r t"
    by (auto simp: incomplete_below_def)
  from t(1) obtain s where s: "(job, s) \<in> edges succ" "(s, t) \<in> (edges succ)\<^sup>*"
    by (meson tranclD)
  show "\<exists>s \<in> set (dag_at succ job). \<not> isSuccess r s \<or> incomplete_below succ r s"
  proof (cases "s = t")
    case True
    with s t show ?thesis by (auto simp: edges_iff)
  next
    case False
    with s(2) have "(s, t) \<in> (edges succ)\<^sup>+" by (simp add: rtrancl_eq_or_trancl)
    with s(1) t(2) show ?thesis by (auto simp: edges_iff incomplete_below_def)
  qed
next
  assume "\<exists>s \<in> set (dag_at succ job). \<not> isSuccess r s \<or> incomplete_below succ r s"
  then obtain s where s: "(job, s) \<in> edges succ" "\<not> isSuccess r s \<or> incomplete_below succ r s"
    by (auto simp: edges_iff)
  then show "incomplete_below succ r job"
    unfolding incomplete_below_def by (meson r_into_trancl' trancl_into_trancl2)
qed

lemma memo_sound_empty: "memo_sound succ r Map.empty"
  by (simp add: memo_sound_def)

lemma memo_sound_upd:
  "memo_sound succ r m \<Longrightarrow> memo_sound succ r (m(job \<mapsto> incomplete_below succ r job))"
  by (simp add: memo_sound_def)

lemma has_correct:
  assumes "acyclic (edges succ)"
  shows "memo_sound succ r memo \<Longrightarrow> \<forall>v \<in> visiting. (v, job) \<in> (edges succ)\<^sup>+ \<Longrightarrow>
           fst (hasNotSuccessInSubtree succ r visiting job memo) = incomplete_below succ r job
           \<and> memo_sound succ r (snd (hasNotSuccessInSubtree succ r visiting job memo))"
    and "memo_sound succ r memo \<Longrightarrow> \<forall>v \<in> visiting. (v, job) \<in> (edges succ)\<^sup>* \<Longrightarrow>
         set ss \<subseteq> set (dag_at succ job) \<Longrightarrow>
           fst (hasNotSuccess_each succ r visiting job ss memo)
             = (\<exists>s \<in> set ss. \<not> isSuccess r s \<or> incomplete_below succ r s)
           \<and> (\<exists>m. memo_sound succ r m \<and>
                 snd (hasNotSuccess_each succ r visiting job ss memo)
                   = m(job \<mapsto> fst (hasNotSuccess_each succ r visiting job ss memo)))"
  using assms
proof (induction succ r visiting job memo and succ r visiting job ss memo
       rule: hasNotSuccessInSubtree_hasNotSuccess_each.induct)
  case (1 succ r visiting job memo)
  note ac = \<open>acyclic (edges succ)\<close>
  show ?case
  proof (cases "memo job")
    case (Some v)
    with "1.prems"(1) have "v = incomplete_below succ r job" by (simp add: memo_sound_def)
    with Some "1.prems"(1) show ?thesis by (simp add: hasNotSuccessInSubtree.simps)
  next
    case None
    have nv: "job \<notin> visiting"
    proof
      assume "job \<in> visiting"
      with "1.prems"(2) have "(job, job) \<in> (edges succ)\<^sup>+" by blast
      with ac show False by (simp add: acyclic_def)
    qed
    let ?res = "hasNotSuccess_each succ r (insert job visiting) job (dag_at succ job) memo"
    have eq: "hasNotSuccessInSubtree succ r visiting job memo = ?res"
      using None nv by (simp add: hasNotSuccessInSubtree.simps)
    have vis: "\<forall>v \<in> insert job visiting. (v, job) \<in> (edges succ)\<^sup>*"
      using "1.prems"(2) by auto
    from "1.IH"[OF None nv "1.prems"(1) vis subset_refl ac]
    obtain m where f: "fst ?res = (\<exists>s \<in> set (dag_at succ job). \<not> isSuccess r s \<or> incomplete_below succ r s)"
      and m: "memo_sound succ r m" "snd ?res = m(job \<mapsto> fst ?res)"
      by blast
    from f have f': "fst ?res = incomplete_below succ r job"
      by (simp add: incomplete_below_step[of succ r job])
    with m memo_sound_upd[OF m(1), of job] have "memo_sound succ r (snd ?res)" by simp
    with f' eq show ?thesis by simp
  qed
next
  case (2 succ r visiting job memo)
  then show ?case by auto
next
  case (3 succ r visiting job s ss memo)
  note ac = \<open>acyclic (edges succ)\<close>
  show ?case
  proof (cases "isSuccess r s")
    case False
    with "3.prems"(1) show ?thesis by auto
  next
    case True
    then have nn: "\<not> \<not> isSuccess r s" by simp
    let ?sub = "hasNotSuccessInSubtree succ r visiting s memo"
    from "3.prems"(3) have s_edge: "(job, s) \<in> edges succ" by (simp add: edges_iff)
    have vis: "\<forall>v \<in> visiting. (v, s) \<in> (edges succ)\<^sup>+"
      using "3.prems"(2) s_edge by (meson rtrancl_into_trancl1)
    from "3.IH"(1)[OF nn "3.prems"(1) vis ac]
    have sub: "fst ?sub = incomplete_below succ r s" "memo_sound succ r (snd ?sub)"
      by simp_all
    show ?thesis
    proof (cases "fst ?sub")
      case True
      then have "hasNotSuccess_each succ r visiting job (s # ss) memo
                   = (True, (snd ?sub)(job \<mapsto> True))"
        using \<open>isSuccess r s\<close> by (simp add: case_prod_unfold)
      with True sub show ?thesis by auto
    next
      case False
      then have pair: "(False, snd ?sub) = ?sub" by (metis prod.collapse)
      have ss: "set ss \<subseteq> set (dag_at succ job)" using "3.prems"(3) by simp
      from False have eq: "hasNotSuccess_each succ r visiting job (s # ss) memo
                   = hasNotSuccess_each succ r visiting job ss (snd ?sub)"
        using \<open>isSuccess r s\<close> by (simp add: case_prod_unfold)
      let ?rest = "hasNotSuccess_each succ r visiting job ss (snd ?sub)"
      from "3.IH"(2)[OF nn pair refl sub(2) "3.prems"(2) ss ac]
      have f: "fst ?rest = (\<exists>s \<in> set ss. \<not> isSuccess r s \<or> incomplete_below succ r s)"
        and m: "\<exists>m. memo_sound succ r m \<and> snd ?rest = m(job \<mapsto> fst ?rest)"
        by blast+
      from False sub(1) have "\<not> incomplete_below succ r s" by simp
      with f \<open>isSuccess r s\<close>
      have "fst ?rest = (\<exists>s' \<in> set (s # ss). \<not> isSuccess r s' \<or> incomplete_below succ r s')"
        by simp
      with m show ?thesis unfolding eq by blast
    qed
  qed
qed

lemma BoundarySubtrees_fold:
  assumes "acyclic (edges succ)"
  shows "memo_sound succ r (fst st) \<Longrightarrow>
         memo_sound succ r (fst (fold (BoundarySubtrees_step r succ) ks st))
         \<and> snd (fold (BoundarySubtrees_step r succ) ks st)
             = snd st @ filter (\<lambda>job. isSuccess r job \<and> incomplete_below succ r job) ks"
proof (induction ks arbitrary: st)
  case Nil
  then show ?case by simp
next
  case (Cons job ks)
  obtain memo out where st: "st = (memo, out)" by (cases st)
  let ?h = "hasNotSuccessInSubtree succ r {} job memo"
  from Cons.prems st have snd_memo: "memo_sound succ r memo" by simp
  have h: "fst ?h = incomplete_below succ r job" "memo_sound succ r (snd ?h)"
    using has_correct(1)[OF assms snd_memo, of "{}" job] by simp_all
  have step: "BoundarySubtrees_step r succ job st =
      (if \<not> isSuccess r job then (memo, out)
       else (snd ?h, if incomplete_below succ r job then out @ [job] else out))"
    using h(1) by (cases ?h) (auto simp: BoundarySubtrees_step_def st)
  have "memo_sound succ r (fst (BoundarySubtrees_step r succ job st))"
    using step snd_memo h(2) by simp
  from Cons.IH[OF this] show ?case
    using step st by simp
qed

lemma BoundarySubtrees_filter:
  assumes "acyclic (edges dag)" and "set ks2 = fmdom' dag"
  shows "BoundarySubtrees ks1 ks2 ks3 r dag
           = sort (filter (\<lambda>job. isSuccess r job \<and>
                            (\<exists>s. (s, job) \<in> (edges dag)\<^sup>+ \<and> \<not> isSuccess r s)) ks3)"
proof -
  let ?succ = "reverseDAG ks1 ks2 dag"
  have e: "edges ?succ = (edges dag)\<inverse>" by (rule edges_reverseDAG[OF assms(2)])
  with assms(1) have ac: "acyclic (edges ?succ)" by simp
  have ib: "incomplete_below ?succ r job
              = (\<exists>s. (s, job) \<in> (edges dag)\<^sup>+ \<and> \<not> isSuccess r s)" for job
    by (simp add: incomplete_below_def e trancl_converse)
  show ?thesis
    using BoundarySubtrees_fold[OF ac, of r "(Map.empty, [])" ks3]
    by (simp add: BoundarySubtrees_def Let_def memo_sound_empty ib)
qed

text \<open>
  Without acyclicity the answers true are still right, so every job returned is a Success
  job with an unfinished job above it.
\<close>

lemma has_sound:
  "memo_true_sound succ r memo \<Longrightarrow>
     memo_true_sound succ r (snd (hasNotSuccessInSubtree succ r visiting job memo))
     \<and> (fst (hasNotSuccessInSubtree succ r visiting job memo) \<longrightarrow> incomplete_below succ r job)"
  "memo_true_sound succ r memo \<Longrightarrow> set ss \<subseteq> set (dag_at succ job) \<Longrightarrow>
     memo_true_sound succ r (snd (hasNotSuccess_each succ r visiting job ss memo))
     \<and> (fst (hasNotSuccess_each succ r visiting job ss memo) \<longrightarrow> incomplete_below succ r job)"
proof (induction succ r visiting job memo and succ r visiting job ss memo
       rule: hasNotSuccessInSubtree_hasNotSuccess_each.induct)
  case (1 succ r visiting job memo)
  show ?case
  proof (cases "memo job")
    case (Some v)
    with "1.prems" show ?thesis
      by (auto simp: hasNotSuccessInSubtree.simps memo_true_sound_def)
  next
    case None
    show ?thesis
    proof (cases "job \<in> visiting")
      case True
      with None "1.prems" show ?thesis by (simp add: hasNotSuccessInSubtree.simps)
    next
      case False
      have eq: "hasNotSuccessInSubtree succ r visiting job memo
          = hasNotSuccess_each succ r (insert job visiting) job (dag_at succ job) memo"
        using None False by (simp add: hasNotSuccessInSubtree.simps)
      from "1.IH"[OF None False "1.prems" subset_refl] show ?thesis
        unfolding eq by simp
    qed
  qed
next
  case (2 succ r visiting job memo)
  then show ?case by (auto simp: memo_true_sound_def)
next
  case (3 succ r visiting job s ss memo)
  from "3.prems"(2) have s_in: "s \<in> set (dag_at succ job)" and ss: "set ss \<subseteq> set (dag_at succ job)"
    by simp_all
  show ?case
  proof (cases "isSuccess r s")
    case False
    with s_in have "incomplete_below succ r job"
      using incomplete_below_step[of succ r job] by blast
    with False "3.prems"(1) show ?thesis by (auto simp: memo_true_sound_def)
  next
    case True
    then have nn: "\<not> \<not> isSuccess r s" by simp
    let ?sub = "hasNotSuccessInSubtree succ r visiting s memo"
    from "3.IH"(1)[OF nn "3.prems"(1)]
    have sub: "memo_true_sound succ r (snd ?sub)" "fst ?sub \<longrightarrow> incomplete_below succ r s"
      by simp_all
    show ?thesis
    proof (cases "fst ?sub")
      case True
      then have eq: "hasNotSuccess_each succ r visiting job (s # ss) memo
                   = (True, (snd ?sub)(job \<mapsto> True))"
        using \<open>isSuccess r s\<close> by (simp add: case_prod_unfold)
      from True sub(2) s_in have "incomplete_below succ r job"
        using incomplete_below_step[of succ r job] by blast
      with sub(1) show ?thesis unfolding eq by (auto simp: memo_true_sound_def)
    next
      case False
      then have pair: "(False, snd ?sub) = ?sub" by (metis prod.collapse)
      from False have eq: "hasNotSuccess_each succ r visiting job (s # ss) memo
                   = hasNotSuccess_each succ r visiting job ss (snd ?sub)"
        using \<open>isSuccess r s\<close> by (simp add: case_prod_unfold)
      from "3.IH"(2)[OF nn pair refl sub(1) ss] show ?thesis
        unfolding eq by simp
    qed
  qed
qed

lemma BoundarySubtrees_step_out:
  "snd (BoundarySubtrees_step r succ job (memo, out)) = out
   \<or> snd (BoundarySubtrees_step r succ job (memo, out)) = out @ [job]"
  by (cases "hasNotSuccessInSubtree succ r {} job memo")
     (auto simp: BoundarySubtrees_step_def split: bool.splits)

lemma BoundarySubtrees_fold_distinct:
  "distinct (snd st @ ks) \<Longrightarrow> distinct (snd (fold (BoundarySubtrees_step r succ) ks st))
     \<and> set (snd (fold (BoundarySubtrees_step r succ) ks st)) \<subseteq> set (snd st) \<union> set ks"
proof (induction ks arbitrary: st)
  case Nil
  then show ?case by simp
next
  case (Cons job ks)
  obtain memo out where st: "st = (memo, out)" by (cases st)
  let ?st' = "BoundarySubtrees_step r succ job st"
  from BoundarySubtrees_step_out[of r succ job memo out] st
  have o: "snd ?st' = out \<or> snd ?st' = out @ [job]" by simp
  with Cons.prems st have "distinct (snd ?st' @ ks)" by auto
  from Cons.IH[OF this] o st show ?case by auto
qed

lemma BoundarySubtrees_fold_sound:
  "memo_true_sound succ r (fst st) \<Longrightarrow>
   memo_true_sound succ r (fst (fold (BoundarySubtrees_step r succ) ks st))
   \<and> set (snd (fold (BoundarySubtrees_step r succ) ks st))
       \<subseteq> set (snd st) \<union> {job \<in> set ks. isSuccess r job \<and> incomplete_below succ r job}"
proof (induction ks arbitrary: st)
  case Nil
  then show ?case by simp
next
  case (Cons job ks)
  obtain memo out where st: "st = (memo, out)" by (cases st)
  let ?h = "hasNotSuccessInSubtree succ r {} job memo"
  let ?st' = "BoundarySubtrees_step r succ job st"
  from Cons.prems st have m: "memo_true_sound succ r memo" by simp
  from has_sound(1)[OF m, of "{}" job]
  have h: "memo_true_sound succ r (snd ?h)" "fst ?h \<longrightarrow> incomplete_below succ r job"
    by simp_all
  have step: "?st' =
      (if \<not> isSuccess r job then (memo, out)
       else (snd ?h, if fst ?h then out @ [job] else out))"
    by (cases ?h) (auto simp: BoundarySubtrees_step_def st)
  have "memo_true_sound succ r (fst ?st')" using step m h(1) by simp
  from Cons.IH[OF this]
  have ih: "set (snd (fold (BoundarySubtrees_step r succ) ks ?st'))
         \<subseteq> set (snd ?st') \<union> {job \<in> set ks. isSuccess r job \<and> incomplete_below succ r job}"
    and inv: "memo_true_sound succ r (fst (fold (BoundarySubtrees_step r succ) ks ?st'))"
    by blast+
  have "set (snd ?st') \<subseteq> set (snd st)
          \<union> {j \<in> set (job # ks). isSuccess r j \<and> incomplete_below succ r j}"
    using step st h(2) by auto
  with ih inv show ?case by auto
qed

lemma BoundarySubtrees_sound:
  assumes "set ks2 = fmdom' dag"
  shows "set (BoundarySubtrees ks1 ks2 ks3 r dag)
           \<subseteq> {job \<in> set ks3. isSuccess r job \<and>
                 (\<exists>s. (s, job) \<in> (edges dag)\<^sup>+ \<and> \<not> isSuccess r s)}"
proof -
  let ?succ = "reverseDAG ks1 ks2 dag"
  have e: "edges ?succ = (edges dag)\<inverse>" by (rule edges_reverseDAG[OF assms])
  have ib: "incomplete_below ?succ r job
              = (\<exists>s. (s, job) \<in> (edges dag)\<^sup>+ \<and> \<not> isSuccess r s)" for job
    by (simp add: incomplete_below_def e trancl_converse)
  have "memo_true_sound ?succ r (fst (Map.empty, []))" by (simp add: memo_true_sound_def)
  from BoundarySubtrees_fold_sound[OF this, of ks3] show ?thesis
    by (simp add: BoundarySubtrees_def Let_def ib)
qed

lemma BoundarySubtrees_distinct:
  "distinct ks3 \<Longrightarrow> distinct (BoundarySubtrees ks1 ks2 ks3 r dag)"
  using BoundarySubtrees_fold_distinct[of "(Map.empty, [])" ks3 r "reverseDAG ks1 ks2 dag"]
  by (simp add: BoundarySubtrees_def Let_def)

text \<open>
  Claim C3. On a graph that is acyclic, as a DAG is, \<open>BoundarySubtrees\<close> returns exactly the
  jobs of the graph whose status is Success and on which, through one or more edges, some
  job depends whose status is not Success. On every graph, acyclic or not, it returns only
  such jobs, sorted and each once, and it returns nothing when every job of the graph is
  Success.
\<close>

theorem BoundarySubtrees_spec:
  assumes "range_order dag ks1" and "range_order dag ks2" and "range_order dag ks3"
  shows "(acyclic (edges dag) \<longrightarrow>
          set (BoundarySubtrees ks1 ks2 ks3 r dag)
            = {job \<in> fmdom' dag.
                 JobResult.Status (get r job) = JobStatusSuccess \<and>
                 (\<exists>s. (s, job) \<in> (edges dag)\<^sup>+
                       \<and> JobResult.Status (get r s) \<noteq> JobStatusSuccess)})
       \<and> set (BoundarySubtrees ks1 ks2 ks3 r dag)
            \<subseteq> {job \<in> fmdom' dag.
                 JobResult.Status (get r job) = JobStatusSuccess \<and>
                 (\<exists>s. (s, job) \<in> (edges dag)\<^sup>+
                       \<and> JobResult.Status (get r s) \<noteq> JobStatusSuccess)}
       \<and> sorted (BoundarySubtrees ks1 ks2 ks3 r dag)
       \<and> distinct (BoundarySubtrees ks1 ks2 ks3 r dag)
       \<and> ((\<forall>job \<in> fmdom' dag. JobResult.Status (get r job) = JobStatusSuccess)
            \<longrightarrow> BoundarySubtrees ks1 ks2 ks3 r dag = [])"
proof -
  from assms have k2: "set ks2 = fmdom' dag" and k3: "set ks3 = fmdom' dag" "distinct ks3"
    by (simp_all add: range_order_def)
  let ?B = "BoundarySubtrees ks1 ks2 ks3 r dag"
  let ?S = "{job \<in> fmdom' dag.
                 JobResult.Status (get r job) = JobStatusSuccess \<and>
                 (\<exists>s. (s, job) \<in> (edges dag)\<^sup>+
                       \<and> JobResult.Status (get r s) \<noteq> JobStatusSuccess)}"
  have 1: "set ?B = ?S" if ac: "acyclic (edges dag)"
    unfolding BoundarySubtrees_filter[OF ac k2, of ks1 ks3 r]
    using k3 by (auto simp: isSuccess_def)
  have 2: "set ?B \<subseteq> ?S"
    using BoundarySubtrees_sound[OF k2, of ks1 ks3 r] k3 by (auto simp: isSuccess_def)
  have 3: "sorted ?B" by (simp add: BoundarySubtrees_def Let_def)
  have 4: "distinct ?B" by (rule BoundarySubtrees_distinct[OF k3(2)])
  have 5: "?B = []" if all: "\<forall>job \<in> fmdom' dag. JobResult.Status (get r job) = JobStatusSuccess"
  proof -
    have "s \<in> fmdom' dag" if "(s, job) \<in> (edges dag)\<^sup>+" for s job
      using that Domain_edges[of dag] by (meson Domain.DomainI subsetD tranclD)
    with all have "?S = {}" by blast
    with 2 show ?thesis by simp
  qed
  from 1 2 3 4 5 show ?thesis by blast
qed

text \<open>The theorem at the example run: A is the only Success job, and B depends on it.\<close>

theorem BoundarySubtrees_spec_witness:
  "acyclic (edges ex_dag) \<and> range_order ex_dag ex_order
   \<and> BoundarySubtrees ex_order ex_order ex_order ex_result ex_dag = [''A'']"
proof -
  note t = BoundarySubtrees_spec[OF ex_order_dag ex_order_dag ex_order_dag, of ex_result]
  from t ex_dag_acyclic
  have "''A'' \<in> set (BoundarySubtrees ex_order ex_order ex_order ex_result ex_dag)
        \<longleftrightarrow> ''A'' \<in> {job \<in> fmdom' ex_dag.
                 JobResult.Status (get ex_result job) = JobStatusSuccess \<and>
                 (\<exists>s. (s, job) \<in> (edges ex_dag)\<^sup>+
                       \<and> JobResult.Status (get ex_result s) \<noteq> JobStatusSuccess)}"
    by simp
  moreover have "BoundarySubtrees ex_order ex_order ex_order ex_result ex_dag = [''A'']"
    by (simp add: BoundarySubtrees_def BoundarySubtrees_step_def hasNotSuccessInSubtree.simps
          reverseDAG_def isSuccess_def get_def ex_dag_def ex_result_def ex_order_def)
  ultimately show ?thesis using ex_dag_acyclic ex_order_dag by simp
qed

text \<open>
  Acyclicity is used for the equality: on a cyclic graph the guard on \<open>visiting\<close> cuts a traversal short, the
  memo keeps the answer, and the result depends on the order in which the jobs are visited.
  In \<open>cyclic_dag\<close> the Failed job C depends on A, and A and B on each other, so both A and B
  have an unfinished job above them; B is reported in one order and not in the other.
\<close>

lemma BoundarySubtrees_cyclic_order:
  "BoundarySubtrees [''A'', ''B'', ''C''] [''A'', ''B'', ''C''] [''A'', ''B'', ''C'']
     cyclic_result cyclic_dag = [''A'']
   \<and> BoundarySubtrees [''A'', ''B'', ''C''] [''A'', ''B'', ''C''] [''B'', ''A'', ''C'']
     cyclic_result cyclic_dag = [''A'', ''B'']"
  by (simp add: BoundarySubtrees_def BoundarySubtrees_step_def hasNotSuccessInSubtree.simps
        reverseDAG_def isSuccess_def get_def cyclic_dag_def cyclic_result_def)

text \<open>
  What holds on every graph: a Success job with a direct successor that is not Success is
  always returned.
\<close>

lemma has_direct:
  "memo_no_miss succ r memo \<Longrightarrow>
     memo_no_miss succ r (snd (hasNotSuccessInSubtree succ r visiting job memo))
     \<and> (\<not> fst (hasNotSuccessInSubtree succ r visiting job memo) \<longrightarrow>
          job \<in> visiting \<or> (\<forall>s \<in> set (dag_at succ job). isSuccess r s))"
  "memo_no_miss succ r memo \<Longrightarrow> dag_at succ job = pre @ ss \<Longrightarrow> \<forall>s \<in> set pre. isSuccess r s \<Longrightarrow>
     memo_no_miss succ r (snd (hasNotSuccess_each succ r visiting job ss memo))
     \<and> (\<not> fst (hasNotSuccess_each succ r visiting job ss memo) \<longrightarrow>
          (\<forall>s \<in> set ss. isSuccess r s))"
proof (induction succ r visiting job memo and succ r visiting job ss memo arbitrary: and pre
       rule: hasNotSuccessInSubtree_hasNotSuccess_each.induct)
  case (1 succ r visiting job memo)
  show ?case
  proof (cases "memo job")
    case (Some v)
    with "1.prems" show ?thesis
      by (auto simp: hasNotSuccessInSubtree.simps memo_no_miss_def)
  next
    case None
    show ?thesis
    proof (cases "job \<in> visiting")
      case True
      with None "1.prems" show ?thesis by (simp add: hasNotSuccessInSubtree.simps)
    next
      case False
      have eq: "hasNotSuccessInSubtree succ r visiting job memo
          = hasNotSuccess_each succ r (insert job visiting) job (dag_at succ job) memo"
        using None False by (simp add: hasNotSuccessInSubtree.simps)
      from "1.IH"[OF None False "1.prems", of "[]"] show ?thesis
        unfolding eq by simp
    qed
  qed
next
  case (2 succ r visiting job memo)
  then show ?case by (auto simp: memo_no_miss_def)
next
  case (3 succ r visiting job s ss memo)
  show ?case
  proof (cases "isSuccess r s")
    case False
    with "3.prems"(1) show ?thesis by (auto simp: memo_no_miss_def)
  next
    case True
    then have nn: "\<not> \<not> isSuccess r s" by simp
    let ?sub = "hasNotSuccessInSubtree succ r visiting s memo"
    from "3.IH"(1)[OF nn "3.prems"(1)] have sub: "memo_no_miss succ r (snd ?sub)" by simp
    show ?thesis
    proof (cases "fst ?sub")
      case True
      then have "hasNotSuccess_each succ r visiting job (s # ss) memo
                   = (True, (snd ?sub)(job \<mapsto> True))"
        using \<open>isSuccess r s\<close> by (simp add: case_prod_unfold)
      with sub show ?thesis by (auto simp: memo_no_miss_def)
    next
      case False
      then have pair: "(False, snd ?sub) = ?sub" by (metis prod.collapse)
      from False have eq: "hasNotSuccess_each succ r visiting job (s # ss) memo
                   = hasNotSuccess_each succ r visiting job ss (snd ?sub)"
        using \<open>isSuccess r s\<close> by (simp add: case_prod_unfold)
      have pre: "dag_at succ job = (pre @ [s]) @ ss" "\<forall>x \<in> set (pre @ [s]). isSuccess r x"
        using "3.prems"(2,3) True by auto
      from "3.IH"(2)[OF nn pair refl sub pre] True show ?thesis
        unfolding eq by simp
    qed
  qed
qed

lemma BoundarySubtrees_fold_direct:
  "memo_no_miss succ r (fst st) \<Longrightarrow>
   memo_no_miss succ r (fst (fold (BoundarySubtrees_step r succ) ks st))
   \<and> set (snd st) \<union> {job \<in> set ks. isSuccess r job \<and> (\<exists>s \<in> set (dag_at succ job). \<not> isSuccess r s)}
       \<subseteq> set (snd (fold (BoundarySubtrees_step r succ) ks st))"
proof (induction ks arbitrary: st)
  case Nil
  then show ?case by simp
next
  case (Cons job ks)
  obtain memo out where st: "st = (memo, out)" by (cases st)
  let ?h = "hasNotSuccessInSubtree succ r {} job memo"
  from Cons.prems st have m: "memo_no_miss succ r memo" by simp
  from has_direct(1)[OF m, of "{}" job]
  have h: "memo_no_miss succ r (snd ?h)"
    "\<not> fst ?h \<longrightarrow> (\<forall>s \<in> set (dag_at succ job). isSuccess r s)"
    by simp_all
  have step: "BoundarySubtrees_step r succ job st =
      (if \<not> isSuccess r job then (memo, out)
       else (snd ?h, if fst ?h then out @ [job] else out))"
    by (cases ?h) (auto simp: BoundarySubtrees_step_def st)
  have "memo_no_miss succ r (fst (BoundarySubtrees_step r succ job st))"
    using step m h(1) by simp
  from Cons.IH[OF this] have
    ih: "set (snd (BoundarySubtrees_step r succ job st))
           \<union> {job \<in> set ks. isSuccess r job \<and> (\<exists>s \<in> set (dag_at succ job). \<not> isSuccess r s)}
         \<subseteq> set (snd (fold (BoundarySubtrees_step r succ) ks (BoundarySubtrees_step r succ job st)))"
    and inv: "memo_no_miss succ r
                (fst (fold (BoundarySubtrees_step r succ) ks (BoundarySubtrees_step r succ job st)))"
    by blast+
  have "set (snd st) \<subseteq> set (snd (BoundarySubtrees_step r succ job st))"
    using step st by auto
  moreover have "job \<in> set (snd (BoundarySubtrees_step r succ job st))"
    if "isSuccess r job" "\<exists>s \<in> set (dag_at succ job). \<not> isSuccess r s"
    using step that h(2) by auto
  ultimately show ?case using ih inv by auto
qed

lemma BoundarySubtrees_direct:
  assumes "set ks2 = fmdom' dag" and "job \<in> set ks3" and "isSuccess r job"
    and "job \<in> set (dag_at dag s)" and "\<not> isSuccess r s"
  shows "job \<in> set (BoundarySubtrees ks1 ks2 ks3 r dag)"
proof -
  let ?succ = "reverseDAG ks1 ks2 dag"
  have "s \<in> set (dag_at ?succ job)" using assms(4) by (simp add: reverseDAG_at[OF assms(1)])
  with assms(2,3,5) have "job \<in> {job \<in> set ks3. isSuccess r job
      \<and> (\<exists>s \<in> set (dag_at ?succ job). \<not> isSuccess r s)}" by blast
  moreover have "memo_no_miss ?succ r (fst (Map.empty, []))" by (simp add: memo_no_miss_def)
  ultimately show ?thesis
    using BoundarySubtrees_fold_direct[of ?succ r "(Map.empty, [])" ks3]
    by (auto simp: BoundarySubtrees_def Let_def)
qed

subsection \<open>Names without an entry\<close>

lemma get_missing:
  "job \<notin> fmdom' r \<Longrightarrow> get r job = \<lparr>Name = job, JobResult.Status = JobStatusUnknown, Error = None\<rparr>"
  by (auto simp: get_def split: option.splits)

lemma get_nil:
  "fmlookup r job = Some None \<Longrightarrow> get r job = \<lparr>Name = job, JobResult.Status = JobStatusUnknown, Error = None\<rparr>"
  by (auto simp: get_def split: option.splits)

text \<open>
  Claim C9. The queries \<open>get\<close>, \<open>isSuccess\<close>, \<open>Blockers\<close>, \<open>Subtree\<close>, \<open>Frontiers\<close> and
  \<open>BoundarySubtrees\<close> have no failing step: a map index with an absent key yields the zero
  value, and every status is read through \<open>get\<close>, which tests for the absent key and the
  nil pointer. They are total functions here, with no error among their results. A name
  without an entry (or with a nil one) is read as an Unknown job with a nil error: it is
  not Success, \<open>Blockers\<close> reports it wherever it is a dependency, \<open>Frontiers\<close> lists it, when
  it is a job of the graph, exactly when its dependencies are all Success, and
  \<open>BoundarySubtrees\<close> returns every Success job that it depends on directly, or, in an
  acyclic graph, through any number of edges.
\<close>

theorem missing_entry_is_Unknown:
  assumes "name \<notin> fmdom' r \<or> fmlookup r name = Some None"
  shows "get r name = \<lparr>Name = name, JobResult.Status = JobStatusUnknown, Error = None\<rparr>
       \<and> \<not> isSuccess r name
       \<and> (\<forall>job. name \<in> set (dag_at dag job) \<longrightarrow> name \<in> set (Blockers r dag job))
       \<and> (\<forall>ks1 ks2 ks3. range_order dag ks3 \<longrightarrow> name \<in> fmdom' dag \<longrightarrow>
            (name \<in> set (map Job (Frontiers ks1 ks2 ks3 r dag))
               \<longleftrightarrow> (\<forall>d \<in> set (dag_at dag name). isSuccess r d)))
       \<and> (\<forall>ks1 ks2 ks3 job. range_order dag ks2 \<longrightarrow> range_order dag ks3 \<longrightarrow>
            job \<in> fmdom' dag \<longrightarrow> isSuccess r job \<longrightarrow> job \<in> set (dag_at dag name) \<longrightarrow>
            job \<in> set (BoundarySubtrees ks1 ks2 ks3 r dag))
       \<and> (\<forall>ks1 ks2 ks3 job. acyclic (edges dag) \<longrightarrow> range_order dag ks2 \<longrightarrow>
            range_order dag ks3 \<longrightarrow> job \<in> fmdom' dag \<longrightarrow> isSuccess r job \<longrightarrow>
            (name, job) \<in> (edges dag)\<^sup>+ \<longrightarrow>
            job \<in> set (BoundarySubtrees ks1 ks2 ks3 r dag))"
proof -
  from assms
  have g: "get r name = \<lparr>Name = name, JobResult.Status = JobStatusUnknown, Error = None\<rparr>"
    using get_missing get_nil by blast
  then have ns: "\<not> isSuccess r name" by (simp add: isSuccess_def)
  have b: "name \<in> set (Blockers r dag job)" if "name \<in> set (dag_at dag job)" for job
    using that g by (simp add: set_Blockers)
  have f: "name \<in> set (map Job (Frontiers ks1 ks2 ks3 r dag))
               \<longleftrightarrow> (\<forall>d \<in> set (dag_at dag name). isSuccess r d)"
    if "range_order dag ks3" "name \<in> fmdom' dag" for ks1 ks2 ks3
  proof -
    from that have "name \<in> set ks3" by (simp add: range_order_def)
    then show ?thesis
      using g by (simp add: Frontiers_jobs in_frontier_def Blockers_empty_iff isSuccess_def)
  qed
  have bd: "job \<in> set (BoundarySubtrees ks1 ks2 ks3 r dag)"
    if "range_order dag ks2" "range_order dag ks3"
      "job \<in> fmdom' dag" "isSuccess r job" "job \<in> set (dag_at dag name)"
    for ks1 ks2 ks3 job
  proof -
    from that have k: "set ks2 = fmdom' dag" "job \<in> set ks3" by (simp_all add: range_order_def)
    show ?thesis by (rule BoundarySubtrees_direct[OF k that(4,5) ns])
  qed
  have bs: "job \<in> set (BoundarySubtrees ks1 ks2 ks3 r dag)"
    if "acyclic (edges dag)" "range_order dag ks2" "range_order dag ks3"
      "job \<in> fmdom' dag" "isSuccess r job" "(name, job) \<in> (edges dag)\<^sup>+"
    for ks1 ks2 ks3 job
  proof -
    from that have k: "set ks2 = fmdom' dag" "job \<in> set ks3" by (simp_all add: range_order_def)
    show ?thesis
      unfolding BoundarySubtrees_filter[OF that(1) k(1)] using k(2) that(5,6) ns by auto
  qed
  from g ns b f bd bs show ?thesis by blast
qed

text \<open>
  The theorem at \<open>partial_result\<close> and \<open>dangling_dag\<close>: Z and B have no entry; Z blocks B, B
  is therefore not in the frontier, and A, on which B depends, is a boundary.
\<close>

theorem missing_entry_is_Unknown_witness:
  "''Z'' \<notin> fmdom' partial_result \<and> ''B'' \<notin> fmdom' partial_result
   \<and> get partial_result ''Z''
       = \<lparr>Name = ''Z'', JobResult.Status = JobStatusUnknown, Error = None\<rparr>
   \<and> Blockers partial_result dangling_dag ''B'' = [''Z'']
   \<and> map Job (Frontiers [''A'', ''B''] [''A'', ''B''] [''B'', ''A''] partial_result dangling_dag)
       = []
   \<and> BoundarySubtrees [''A'', ''B''] [''A'', ''B''] [''B'', ''A''] partial_result dangling_dag
       = [''A'']"
proof -
  have z: "''Z'' \<notin> fmdom' partial_result \<or> fmlookup partial_result ''Z'' = Some None"
    and b: "''B'' \<notin> fmdom' partial_result \<or> fmlookup partial_result ''B'' = Some None"
    by (simp_all add: partial_result_def)
  have "''Z'' \<in> set (Blockers partial_result dangling_dag ''B'')"
    using missing_entry_is_Unknown[OF z, of dangling_dag] by (simp add: dangling_dag_def)
  moreover have "\<not> isSuccess partial_result ''B''"
    using missing_entry_is_Unknown[OF b, of dangling_dag] by blast
  moreover have "Blockers partial_result dangling_dag ''B'' = [''Z'']"
    by (simp add: Blockers_def isSuccess_def get_def partial_result_def dangling_dag_def)
  moreover have "map Job (Frontiers [''A'', ''B''] [''A'', ''B''] [''B'', ''A'']
                            partial_result dangling_dag) = []"
    by (simp add: Frontiers_def Frontiers_step_def Let_def Blockers_def isSuccess_def get_def
          partial_result_def dangling_dag_def)
  moreover have "BoundarySubtrees [''A'', ''B''] [''A'', ''B''] [''B'', ''A'']
                   partial_result dangling_dag = [''A'']"
    by (simp add: BoundarySubtrees_def BoundarySubtrees_step_def hasNotSuccessInSubtree.simps
          reverseDAG_def isSuccess_def get_def partial_result_def dangling_dag_def)
  ultimately show ?thesis
    by (simp add: get_def partial_result_def)
qed

end
